theory Spec2Isabelle
  imports Complex_Main
begin

section \<open>Aiyagari model solved by policy function iteration: a shallow embedding\<close>

text \<open>
  The development follows \<^verbatim>\<open>Aiyagari_PFI_Small.py\<close>. Python floats are modelled as
  real numbers (exact arithmetic): rounding, overflow and not-a-number values are outside
  the model. NumPy arrays are lists, two-dimensional arrays are lists of rows. Every
  \<^verbatim>\<open>raise\<close>, failed \<^verbatim>\<open>assert\<close> and out-of-range index of the source is a value
  of the type \<open>error\<close>.
\<close>

datatype error =
    IndexError
  | NameError
  | ValueError
  | LinAlgError
  | NotFinite
  | ZeroDivisionError
  | AssertionError string
  | Failure string

subsection \<open>The equilibrium loop of \<^verbatim>\<open>solve_model\<close>\<close>

text \<open>
  \<^verbatim>\<open>diff_old\<close> holds either a float or \<^verbatim>\<open>np.inf\<close>; the comparison
  \<^verbatim>\<open>np.abs(diff) > np.abs(diff_old)\<close> is \<open>abs_gt\<close>.
\<close>

datatype ext_real = Fin real | PInf

fun abs_gt :: "real \<Rightarrow> ext_real \<Rightarrow> bool" where
  "abs_gt d PInf = False"
| "abs_gt d (Fin e) = (\<bar>d\<bar> > \<bar>e\<bar>)"

record ss_params =
  beta :: real
  ss_r_tol :: real
  dp_big :: real
  dp_small :: real
  maxit_ss :: nat

text \<open>The values fixed by \<^verbatim>\<open>setup_parameters\<close>.\<close>

definition setup_parameters :: ss_params where
  "setup_parameters =
     \<lparr>beta = 96 / 100, ss_r_tol = 1 / 10000, dp_big = 1 / 10, dp_small = 1 / 100,
      maxit_ss = 100\<rparr>"

text \<open>
  The state of the loop: the current guess, \<^verbatim>\<open>diff_old\<close>, the loop variable
  \<^verbatim>\<open>it\<close> (unbound before the first pass), whether the loop was left by
  \<^verbatim>\<open>break\<close>, and the damping factor of every update made so far (latest first).
\<close>

record ss_state =
  r_guess :: real
  diff_old :: ext_real
  it :: "nat option"
  converged :: bool
  damps :: "real list"

text \<open>
  One pass of the loop body for the loop index \<open>i\<close>. \<open>ge\<close> is
  \<^verbatim>\<open>self.ge_algorithm\<close>: it returns the residual for a guess, or raises.
  The field \<open>converged\<close> is set when the pass ends in \<^verbatim>\<open>break\<close>.
\<close>

definition ss_body ::
  "ss_params \<Rightarrow> (real \<Rightarrow> error + real) \<Rightarrow> nat \<Rightarrow> ss_state \<Rightarrow> error + ss_state" where
  "ss_body P ge i s =
     (let s1 = s\<lparr>it := Some i, diff_old := PInf\<rparr> in
      case ge (r_guess s1) of
        Inl e \<Rightarrow> Inl e
      | Inr diff \<Rightarrow>
          if \<bar>diff\<bar> < ss_r_tol P then Inr (s1\<lparr>converged := True\<rparr>)
          else
            let s2 =
              (if abs_gt diff (diff_old s1)
               then s1\<lparr>r_guess := r_guess s1 - dp_small P * diff, damps := dp_small P # damps s1\<rparr>
               else s1\<lparr>r_guess := r_guess s1 - dp_big P * diff, damps := dp_big P # damps s1\<rparr>)
            in Inr (s2\<lparr>diff_old := Fin diff\<rparr>))"

fun ss_loop ::
  "ss_params \<Rightarrow> (real \<Rightarrow> error + real) \<Rightarrow> nat list \<Rightarrow> ss_state \<Rightarrow> error + ss_state" where
  "ss_loop P ge [] s = Inr s"
| "ss_loop P ge (i # is) s =
     (case ss_body P ge i s of
        Inl e \<Rightarrow> Inl e
      | Inr s' \<Rightarrow> if converged s' then Inr s' else ss_loop P ge is s')"

text \<open>
  What \<^verbatim>\<open>solve_model\<close> has computed when it stores \<^verbatim>\<open>self.r_ss\<close>: the rate,
  whether \<^verbatim>\<open>"No convergence"\<close> was printed, and the final loop state.
\<close>

record ss_result =
  r_ss :: real
  no_convergence_printed :: bool
  final :: ss_state

definition solve_model :: "ss_params \<Rightarrow> (real \<Rightarrow> error + real) \<Rightarrow> error + ss_result" where
  "solve_model P ge =
     (let r0 = 2 / 100 in
      if \<not> (1 + r0) * beta P < 1 then Inl (AssertionError ''Stability condition violated.'')
      else
        case ss_loop P ge [0..<maxit_ss P]
               \<lparr>r_guess = r0, diff_old = PInf, it = None, converged = False, damps = []\<rparr> of
          Inl e \<Rightarrow> Inl e
        | Inr s \<Rightarrow>
            (case it s of
               None \<Rightarrow> Inl NameError
             | Some i \<Rightarrow>
                 Inr \<lparr>r_ss = r_guess s,
                      no_convergence_printed = (int i > int (maxit_ss P) - 1),
                      final = s\<rparr>))"


subsection \<open>The grid builder: \<^verbatim>\<open>make_grid\<close>\<close>

text \<open>
  \<^verbatim>\<open>grd = np.zeros(num)\<close>, then the two end points are stored, then the interior
  points. Storing \<^verbatim>\<open>grd[0]\<close> into an empty array raises. The base of the power is
  positive for every interior index, where Python's \<^verbatim>\<open>**\<close> is \<open>powr\<close>.
\<close>

definition make_grid :: "real \<Rightarrow> real \<Rightarrow> nat \<Rightarrow> real \<Rightarrow> error + real list" where
  "make_grid min_val max_val num curv =
     (if num = 0 then Inl IndexError
      else
        let grd = replicate num 0;
            scale = max_val - min_val;
            grd = grd[0 := min_val];
            grd = grd[num - 1 := max_val]
        in Inr (fold (\<lambda>i g. g[i := min_val + scale * (real i / real (num - 1)) powr curv])
                  [1..<num - 1] grd))"

text \<open>The value the grid formula gives at index \<open>i\<close> (used to state the properties).\<close>

definition grid_val :: "real \<Rightarrow> real \<Rightarrow> nat \<Rightarrow> real \<Rightarrow> nat \<Rightarrow> real" where
  "grid_val lo hi n c i = lo + (hi - lo) * (real i / real (n - 1)) powr c"

subsection \<open>Helper functions: indexing, power, interpolation, marginal utility\<close>

text \<open>Reading an array at an index of a \<^verbatim>\<open>range\<close> or \<^verbatim>\<open>enumerate\<close> loop.\<close>

definition nth_err :: "'a list \<Rightarrow> nat \<Rightarrow> error + 'a" where
  "nth_err xs i = (if i < length xs then Inr (xs ! i) else Inl IndexError)"

definition bind_err :: "error + 'a \<Rightarrow> ('a \<Rightarrow> error + 'b) \<Rightarrow> error + 'b" where
  "bind_err m f = (case m of Inl e \<Rightarrow> Inl e | Inr v \<Rightarrow> f v)"

text \<open>A loop that computes one value per element and stops at the first error.\<close>

fun map_err :: "('a \<Rightarrow> error + 'b) \<Rightarrow> 'a list \<Rightarrow> error + 'b list" where
  "map_err f [] = Inr []"
| "map_err f (x # xs) =
     (case f x of
        Inl e \<Rightarrow> Inl e
      | Inr y \<Rightarrow> (case map_err f xs of Inl e \<Rightarrow> Inl e | Inr ys \<Rightarrow> Inr (y # ys)))"




text \<open>
  \<^verbatim>\<open>interp(x, y, x_vals) = np.interp(x_vals, x, y)\<close> for one evaluation point.
  NumPy's routine is not part of the repository; it is modelled from its documentation
  for increasing sample points: the sample arrays must be non-empty and of equal length,
  the result is \<^verbatim>\<open>fp[0]\<close> left of the samples, \<^verbatim>\<open>fp[-1]\<close> right of them, and on
  the segment \<open>xp[j] \<le> x < xp[j+1]\<close> it is
  \<^verbatim>\<open>(fp[j+1] - fp[j]) / (xp[j+1] - xp[j]) * (x - xp[j]) + fp[j]\<close>.
\<close>

fun interp_seg :: "real list \<Rightarrow> real list \<Rightarrow> real \<Rightarrow> error + real" where
  "interp_seg (x0 # x1 # xs) (y0 # y1 # ys) x =
     (if x < x1
      then (if x1 - x0 = 0 then Inl NotFinite
            else Inr ((y1 - y0) / (x1 - x0) * (x - x0) + y0))
      else interp_seg (x1 # xs) (y1 # ys) x)"
| "interp_seg [x0] [y0] x = Inr y0"
| "interp_seg xs ys x = Inl ValueError"

definition interp :: "real list \<Rightarrow> real list \<Rightarrow> real \<Rightarrow> error + real" where
  "interp xp fp x =
     (if xp = [] \<or> length xp \<noteq> length fp then Inl ValueError
      else if x > last xp then Inr (last fp)
      else if x < hd xp then Inr (hd fp)
      else interp_seg xp fp x)"

subsection \<open>The household: \<^verbatim>\<open>euler_eq_residual\<close> and \<^verbatim>\<open>solve_hh\<close>\<close>










text \<open>\<^verbatim>\<open>np.abs(pol_sav - pol_sav_old).max()\<close>; the maximum of an empty array raises.\<close>

definition sup_dist :: "real list list \<Rightarrow> real list list \<Rightarrow> error + real" where
  "sup_dist A B =
     (case concat (map2 (map2 (\<lambda>x y. \<bar>x - y\<bar>)) A B) of
        [] \<Rightarrow> Inl ValueError
      | d # ds \<Rightarrow> Inr (fold max ds d))"









subsection \<open>The Monte Carlo panel: \<^verbatim>\<open>simulate_MonteCarlo\<close>\<close>

text \<open>
  The tuple \<^verbatim>\<open>params_sim\<close> without the seed. The shuffled draws of period \<open>t\<close>
  (a permutation of \<^verbatim>\<open>np.linspace(0, 1, simN)\<close> fixed by the seed) are the parameter
  \<open>draws t\<close> of the model. The argument \<^verbatim>\<open>pol_cons\<close> of the function is not
  read by its body and is left out.
\<close>

record params_sim =
  sim_a0 :: "real list"
  sim_z0 :: "nat list"
  simN :: nat
  simT :: nat
  sim_grid_z :: "real list"
  sim_grid_a :: "real list"
  sim_sigma :: real
  sim_beta :: real
  sim_pi :: "real list list"

text \<open>
  The arrays of the panel, the counter \<^verbatim>\<open>edge\<close>, and for every agent whether
  \<^verbatim>\<open>check_out\<close> was set for it in some period. The per-agent Euler error
  \<^verbatim>\<open>euler_error_sim\<close> is written by the loop and read by nothing in it; it is not part
  of the state.
\<close>

record panel =
  p_sav :: "real list"
  p_z_idx :: "nat list"
  p_z :: "real list"
  p_c :: "real list"
  p_m :: "real list"
  p_k :: "real list"
  p_edge :: nat
  p_out :: "bool list"

definition mean :: "real list \<Rightarrow> real" where
  "mean xs = sum_list xs / real (length xs)"

text \<open>\<^verbatim>\<open>row[-1]\<close>.\<close>

definition last_err :: "'a list \<Rightarrow> error + 'a" where
  "last_err xs = (if xs = [] then Inl IndexError else Inr (last xs))"

text \<open>
  Steps i to vii for one agent in one period, from the lagged state \<open>(z_lag_idx, a_lag)\<close>
  and the agent's draw: the new income index, income, cash-on-hand, savings, consumption
  and \<^verbatim>\<open>check_out\<close>.
\<close>

definition agent_step ::
  "real list list \<Rightarrow> real \<Rightarrow> real \<Rightarrow> params_sim \<Rightarrow> real \<Rightarrow> nat \<Rightarrow> real \<Rightarrow>
   error + nat \<times> real \<times> real \<times> real \<times> real \<times> bool" where
  "agent_step pol_sav r w S draw_i z_lag_idx a_lag =
     bind_err (nth_err (sim_pi S) z_lag_idx) (\<lambda>pi_row.
     bind_err (nth_err pi_row 1) (\<lambda>p_high.
       let z_idx = (if draw_i \<le> p_high then 1 else 0) in
     bind_err (nth_err (sim_grid_z S) z_idx) (\<lambda>z.
       let y = w * z;
           m = (1 + r) * a_lag + y in
     bind_err (nth_err pol_sav z_idx) (\<lambda>row.
     bind_err (interp (sim_grid_a S) row a_lag) (\<lambda>s.
     bind_err (nth_err (sim_grid_a S) 0) (\<lambda>a_min.
       let sav = (if s < a_min then a_min else s);
           c = m - sav in
     bind_err (last_err row) (\<lambda>top.
       Inr (z_idx, z, m, sav, c, sav \<ge> top))))))))"

text \<open>One period \<open>t\<close> of the time loop.\<close>

definition sim_period ::
  "(nat \<Rightarrow> real list) \<Rightarrow> real list list \<Rightarrow> real \<Rightarrow> real \<Rightarrow> params_sim \<Rightarrow> nat \<Rightarrow> panel \<Rightarrow>
   error + panel" where
  "sim_period draws pol_sav r w S t p =
     (let draw = draws t;
          k = (if t \<le> 0 then mean (sim_a0 S) else mean (p_sav p))
      in bind_err
           (map_err (\<lambda>i.
              bind_err (if t = 0 then nth_err (sim_z0 S) i else nth_err (p_z_idx p) i)
                (\<lambda>z_lag_idx.
              bind_err (if t = 0 then nth_err (sim_a0 S) i else nth_err (p_sav p) i)
                (\<lambda>a_lag.
              bind_err (nth_err draw i) (\<lambda>draw_i.
                agent_step pol_sav r w S draw_i z_lag_idx a_lag))))
              [0..<simN S])
           (\<lambda>agents.
              Inr \<lparr>p_sav = map (\<lambda>(z_idx, z, m, sav, c, out). sav) agents,
                   p_z_idx = map (\<lambda>(z_idx, z, m, sav, c, out). z_idx) agents,
                   p_z = map (\<lambda>(z_idx, z, m, sav, c, out). z) agents,
                   p_c = map (\<lambda>(z_idx, z, m, sav, c, out). c) agents,
                   p_m = map (\<lambda>(z_idx, z, m, sav, c, out). m) agents,
                   p_k = (p_k p)[t := k],
                   p_edge = p_edge p + length (filter (\<lambda>(z_idx, z, m, sav, c, out). out) agents),
                   p_out = map2 (\<lambda>b (z_idx, z, m, sav, c, out). b \<or> out) (p_out p) agents\<rparr>))"

fun sim_loop ::
  "(nat \<Rightarrow> real list) \<Rightarrow> real list list \<Rightarrow> real \<Rightarrow> real \<Rightarrow> params_sim \<Rightarrow> nat list \<Rightarrow> panel \<Rightarrow>
   error + panel" where
  "sim_loop draws pol_sav r w S [] p = Inr p"
| "sim_loop draws pol_sav r w S (t # ts) p =
     bind_err (sim_period draws pol_sav r w S t p) (sim_loop draws pol_sav r w S ts)"

definition sim_panel ::
  "(nat \<Rightarrow> real list) \<Rightarrow> real list list \<Rightarrow> real \<Rightarrow> real \<Rightarrow> params_sim \<Rightarrow> error + panel" where
  "sim_panel draws pol_sav r w S =
     sim_loop draws pol_sav r w S [0..<simT S]
       \<lparr>p_sav = replicate (simN S) 0, p_z_idx = replicate (simN S) 0,
        p_z = replicate (simN S) 0, p_c = replicate (simN S) 0, p_m = replicate (simN S) 0,
        p_k = replicate (simT S) 0, p_edge = 0, p_out = replicate (simN S) False\<rparr>"

text \<open>
  Step e, the grid size evaluation: \<^verbatim>\<open>frac_outside = edge/grid_a.size\<close> and the
  exception \<^verbatim>\<open>'Increase grid size!'\<close>.
\<close>

definition grid_size_check :: "nat \<Rightarrow> nat \<Rightarrow> error + unit" where
  "grid_size_check edge grid_size =
     (if grid_size = 0 then Inl ZeroDivisionError
      else
        let frac_outside = real edge / real grid_size in
        if frac_outside > 1 / 100 then Inl (Failure ''Increase grid size!'') else Inr ())"

definition simulate_MonteCarlo ::
  "(nat \<Rightarrow> real list) \<Rightarrow> real list list \<Rightarrow> real \<Rightarrow> real \<Rightarrow> params_sim \<Rightarrow>
   error + real list \<times> real list \<times> real list \<times> real list \<times> real list" where
  "simulate_MonteCarlo draws pol_sav r w S =
     bind_err (sim_panel draws pol_sav r w S) (\<lambda>p.
     bind_err (grid_size_check (p_edge p) (length (sim_grid_a S))) (\<lambda>_.
       Inr (p_k p, p_sav p, p_z p, p_c p, p_m p)))"

text \<open>
  A panel of one agent and one period on a grid of 100 points \<open>0, 1, \<dots>, 99\<close>, with the
  policy "keep your assets"; the agent starts at the top of the grid.
\<close>

definition sim_example :: params_sim where
  "sim_example =
     \<lparr>sim_a0 = [99], sim_z0 = [0], simN = 1, simT = 1, sim_grid_z = [1 / 2, 3 / 2],
      sim_grid_a = map real [0..<100], sim_sigma = 2, sim_beta = 96 / 100,
      sim_pi = [[3 / 4, 1 / 4], [1 / 4, 3 / 4]]\<rparr>"

definition sim_example_pol :: "real list list" where
  "sim_example_pol = [map real [0..<100], map real [0..<100]]"

subsection \<open>The stationary distribution of the Markov chain: \<^verbatim>\<open>stationary_mc\<close>\<close>

type_synonym matrix = "real list list"

definition ncols :: "matrix \<Rightarrow> nat" where
  "ncols M = (case M of [] \<Rightarrow> 0 | row # _ \<Rightarrow> length row)"

text \<open>The product of a vector with a matrix, \<open>x M\<close>, and \<^verbatim>\<open>np.dot(x, M)\<close>.\<close>

definition vec_mat :: "real list \<Rightarrow> matrix \<Rightarrow> real list" where
  "vec_mat x M = map (\<lambda>j. sum_list (map2 (\<lambda>xi row. xi * row ! j) x M)) [0..<ncols M]"

definition np_dot :: "real list \<Rightarrow> matrix \<Rightarrow> error + real list" where
  "np_dot x M = (if length x \<noteq> length M then Inl ValueError else Inr (vec_mat x M))"

definition mat_mult :: "matrix \<Rightarrow> matrix \<Rightarrow> matrix" where
  "mat_mult A B = map (\<lambda>row. vec_mat row B) A"

definition eye :: "nat \<Rightarrow> matrix" where
  "eye n = map (\<lambda>i. map (\<lambda>j. if i = j then 1 else 0) [0..<n]) [0..<n]"

text \<open>
  \<^verbatim>\<open>np.linalg.inv\<close> is a library routine and a parameter \<open>linv\<close> of the model; it
  raises \<^verbatim>\<open>LinAlgError\<close> on a singular matrix. What it promises for an invertible
  square matrix \<open>q\<close> is a square matrix \<open>qi\<close> of the same size with
  \<open>q qi = qi q = I\<close>.
\<close>

definition is_inverse :: "matrix \<Rightarrow> matrix \<Rightarrow> bool" where
  "is_inverse q qi =
     (length qi = length q \<and> list_all (\<lambda>row. length row = length q) qi
      \<and> mat_mult q qi = eye (length q) \<and> mat_mult qi q = eye (length q))"

text \<open>The loop \<^verbatim>\<open>for i in range(nrows): p[i,i] = p[i,i]-1\<close>.\<close>

fun sub_diag :: "nat list \<Rightarrow> matrix \<Rightarrow> error + matrix" where
  "sub_diag [] p = Inr p"
| "sub_diag (i # is) p =
     (if i < length p \<and> i < length (p ! i)
      then sub_diag is (p[i := (p ! i)[i := p ! i ! i - 1]])
      else Inl IndexError)"

text \<open>
  \<^verbatim>\<open>q = np.c_[p[:,0:nrows-1], np.ones(nrows)]\<close>: the first \<open>nrows - 1\<close> columns of
  \<open>p\<close>, then a column of ones.
\<close>

definition ones_column :: "nat \<Rightarrow> matrix \<Rightarrow> matrix" where
  "ones_column nrows p = map (\<lambda>row. take (nrows - 1) row @ [1]) p"

definition stationary_mc :: "(matrix \<Rightarrow> error + matrix) \<Rightarrow> matrix \<Rightarrow> error + real list" where
  "stationary_mc linv pi_mat =
     (let nrows = length pi_mat in
      if nrows = 0 then Inl ValueError
      else
        bind_err (sub_diag [0..<nrows] pi_mat) (\<lambda>p.
          let q = ones_column nrows p;
              x = replicate (nrows - 1) 0 @ [1]
          in bind_err (linv q) (\<lambda>qi. np_dot x qi)))"

text \<open>
  The matrix \<open>q\<close> that \<^verbatim>\<open>stationary_mc\<close> inverts, written in one piece: the linear
  system derived from \<open>(P\<^sup>T - I) x = 0\<close> and \<open>sum x = 1\<close>.
\<close>

definition mc_system :: "matrix \<Rightarrow> matrix" where
  "mc_system P =
     ones_column (length P) (map (\<lambda>i. (P ! i)[i := P ! i ! i - 1]) [0..<length P])"

text \<open>
  The inverse of a two-by-two matrix by the cofactor formula: what
  \<^verbatim>\<open>np.linalg.inv\<close> returns on such a matrix in exact arithmetic. It is used to run
  \<^verbatim>\<open>stationary_mc\<close> on concrete chains.
\<close>

fun inv2 :: "matrix \<Rightarrow> error + matrix" where
  "inv2 [[a, b], [c, d]] =
     (if a * d - b * c = 0 then Inl LinAlgError
      else Inr [[d / (a * d - b * c), - b / (a * d - b * c)],
                [- c / (a * d - b * c), a / (a * d - b * c)]])"
| "inv2 M = Inl LinAlgError"

subsection \<open>The eigenvector method: the transition matrix of \<^verbatim>\<open>eigen_stationary_density\<close>\<close>

text \<open>
  Reading and writing a NumPy array at a Python integer: a negative index counts from
  the end, an index outside the array raises.
\<close>

definition py_index :: "nat \<Rightarrow> int \<Rightarrow> error + nat" where
  "py_index n i =
     (if 0 \<le> i \<and> i < int n then Inr (nat i)
      else if - int n \<le> i \<and> i < 0 then Inr (nat (int n + i))
      else Inl IndexError)"

definition py_get :: "'a list \<Rightarrow> int \<Rightarrow> error + 'a" where
  "py_get xs i = bind_err (py_index (length xs) i) (\<lambda>k. Inr (xs ! k))"

definition py_set :: "'a list \<Rightarrow> int \<Rightarrow> 'a \<Rightarrow> error + 'a list" where
  "py_set xs i v = bind_err (py_index (length xs) i) (\<lambda>k. Inr (xs[k := v]))"

text \<open>
  The attributes the method reads. \<^verbatim>\<open>self.Na_fine\<close> is the length of
  \<^verbatim>\<open>self.grid_a_fine\<close> by construction (\<^verbatim>\<open>setup_grid\<close> builds the fine grid with
  \<^verbatim>\<open>Na_fine\<close> points); the model takes it from the grid.
\<close>

record params_eig =
  eg_Nz :: nat
  eg_grid_a :: "real list"
  eg_grid_a_fine :: "real list"
  eg_pol_sav :: "real list list"
  eg_pi :: "real list list"

definition eg_Na_fine :: "params_eig \<Rightarrow> nat" where
  "eg_Na_fine E = length (eg_grid_a_fine E)"

text \<open>
  The right grid index \<open>j\<close> and the weight \<open>p\<close> of an interpolated savings value:
  \<^verbatim>\<open>j = np.sum(grid_a_fine <= a_intp)\<close> and the three branches that follow. A
  division by zero gives a value that is not a finite real.
\<close>

definition locate :: "real list \<Rightarrow> real \<Rightarrow> error + real \<times> int" where
  "locate g a_intp =
     (let j = int (length (filter (\<lambda>x. x \<le> a_intp) g)) in
      bind_err (py_get g 0) (\<lambda>g_first.
        if a_intp \<le> g_first then Inr (0, j)
        else
          bind_err (py_get g (- 1)) (\<lambda>g_last.
            if a_intp \<ge> g_last then Inr (1, j - 1)
            else
              bind_err (py_get g (j - 1)) (\<lambda>g_left.
              bind_err (py_get g j) (\<lambda>g_right.
                if g_right - g_left = 0 then Inl NotFinite
                else Inr ((a_intp - g_left) / (g_right - g_left), j))))))"

text \<open>
  The loop over the next productivity state for one row of \<open>Q\<close>: two assignments into
  the row \<^verbatim>\<open>Q[na + i_a, :]\<close> per state.
\<close>

fun q_row_loop ::
  "params_eig \<Rightarrow> nat \<Rightarrow> real \<Rightarrow> int \<Rightarrow> nat list \<Rightarrow> real list \<Rightarrow> error + real list" where
  "q_row_loop E i_z p j [] row = Inr row"
| "q_row_loop E i_z p j (i_zz # is) row =
     (let ma = int (i_zz * eg_Na_fine E) in
      bind_err (nth_err (eg_pi E) i_z) (\<lambda>pi_row.
      bind_err (nth_err pi_row i_zz) (\<lambda>w.
      bind_err (py_set row (ma + j) (p * w)) (\<lambda>row.
      bind_err (nth_err (eg_pi E) i_z) (\<lambda>pi_row.
      bind_err (nth_err pi_row i_zz) (\<lambda>w.
      bind_err (py_set row (ma + j - 1) ((1 - p) * w)) (\<lambda>row.
        q_row_loop E i_z p j is row)))))))"

text \<open>The row of \<open>Q\<close> for the state \<open>(i_z, a0)\<close>, starting from the zero row.\<close>

definition q_row :: "params_eig \<Rightarrow> nat \<Rightarrow> real \<Rightarrow> error + real list" where
  "q_row E i_z a0 =
     bind_err (nth_err (eg_pol_sav E) i_z) (\<lambda>pol_row.
     bind_err (interp (eg_grid_a E) pol_row a0) (\<lambda>a_intp.
     bind_err (locate (eg_grid_a_fine E) a_intp) (\<lambda>(p, j).
       q_row_loop E i_z p j [0..<eg_Nz E] (replicate (eg_Nz E * eg_Na_fine E) 0))))"

text \<open>
  The matrix \<open>Q\<close>: the rows are written in the order of the two outer loops, row
  \<open>i_z * Na_fine + i_a\<close> by the pass \<open>(i_z, i_a)\<close>.
\<close>

definition transition_matrix :: "params_eig \<Rightarrow> error + matrix" where
  "transition_matrix E =
     bind_err (map_err (\<lambda>i_z. map_err (q_row E i_z) (eg_grid_a_fine E)) [0..<eg_Nz E])
       (\<lambda>blocks. Inr (concat blocks))"

text \<open>
  The assertion
  \<^verbatim>\<open>np.allclose(Q.sum(axis=1), np.ones(Nz*Na_fine))\<close>: every row sum is within
  \<open>atol + rtol * 1\<close> of one, with NumPy's defaults \<open>rtol = 1e-5\<close> and \<open>atol = 1e-8\<close>.
\<close>

definition assert_rows :: "matrix \<Rightarrow> error + unit" where
  "assert_rows Q =
     (if list_all (\<lambda>row. \<bar>sum_list row - 1\<bar> \<le> 1 / 10 ^ 8 + 1 / 10 ^ 5 * \<bar>1\<bar>) Q
      then Inr ()
      else Inl (AssertionError ''Transition matrix error: Rows do not sum to 1''))"

definition checked_transition_matrix :: "params_eig \<Rightarrow> error + matrix" where
  "checked_transition_matrix E =
     bind_err (transition_matrix E) (\<lambda>Q. bind_err (assert_rows Q) (\<lambda>_. Inr Q))"

text \<open>A small economy: two income states, a coarse grid of two and a fine grid of three points.\<close>

definition eig_example :: params_eig where
  "eig_example =
     \<lparr>eg_Nz = 2, eg_grid_a = [0, 2], eg_grid_a_fine = [0, 1, 2],
      eg_pol_sav = [[0, 1], [1 / 2, 2]],
      eg_pi = [[3 / 4, 1 / 4], [1 / 4, 3 / 4]]\<rparr>"

subsection \<open>The discrete density: \<^verbatim>\<open>discrete_stationary_density\<close>\<close>

text \<open>The tuple \<^verbatim>\<open>params_discrete\<close>.\<close>

record params_discrete =
  dis_grid_a :: "real list"
  dis_grid_a_fine :: "real list"
  dis_Nz :: nat
  dis_pi :: "real list list"
  dis_pi_stat :: "real list"
  dis_maxit :: nat
  dis_tol :: real

text \<open>A loop that threads a state through its passes and stops at the first error.\<close>

fun fold_err :: "('a \<Rightarrow> 's \<Rightarrow> error + 's) \<Rightarrow> 'a list \<Rightarrow> 's \<Rightarrow> error + 's" where
  "fold_err f [] s = Inr s"
| "fold_err f (x # xs) s = bind_err (f x s) (fold_err f xs)"

text \<open>\<^verbatim>\<open>T[izz, c] = T[izz, c] + v\<close> for a row index of a loop and a Python column index.\<close>

definition add_at :: "matrix \<Rightarrow> nat \<Rightarrow> int \<Rightarrow> real \<Rightarrow> error + matrix" where
  "add_at T izz c v =
     bind_err (nth_err T izz) (\<lambda>row.
     bind_err (py_index (length row) c) (\<lambda>k.
       Inr (T[izz := row[k := row ! k + v]])))"

text \<open>The two factors \<^verbatim>\<open>stationary_pdf_old[iz,ia]\<close> and \<^verbatim>\<open>pi[iz,izz]\<close>.\<close>

definition mass_factors ::
  "params_discrete \<Rightarrow> matrix \<Rightarrow> nat \<Rightarrow> nat \<Rightarrow> nat \<Rightarrow> error + real \<times> real" where
  "mass_factors D old iz ia izz =
     bind_err (nth_err old iz) (\<lambda>old_row.
     bind_err (nth_err old_row ia) (\<lambda>m.
     bind_err (nth_err (dis_pi D) iz) (\<lambda>pi_row.
     bind_err (nth_err pi_row izz) (\<lambda>w. Inr (m, w)))))"

text \<open>
  The three branches for one cell \<open>(iz, ia)\<close> of the old density: all mass to the first
  column, all mass to the last column, or split between the columns \<open>j - 1\<close> and \<open>j\<close>.
\<close>

definition cell_update ::
  "params_discrete \<Rightarrow> matrix \<Rightarrow> matrix \<Rightarrow> nat \<Rightarrow> nat \<Rightarrow> real \<Rightarrow> matrix \<Rightarrow> error + matrix" where
  "cell_update D pol_sav old iz ia a0 T =
     (let g = dis_grid_a_fine D in
      bind_err (nth_err pol_sav iz) (\<lambda>pol_row.
      bind_err (interp (dis_grid_a D) pol_row a0) (\<lambda>a_intp.
      bind_err (py_get g 0) (\<lambda>g_first.
        if a_intp \<le> g_first
        then fold_err (\<lambda>izz T.
               bind_err (mass_factors D old iz ia izz) (\<lambda>(m, w). add_at T izz 0 (m * w)))
               [0..<dis_Nz D] T
        else
          bind_err (py_get g (- 1)) (\<lambda>g_last.
            if a_intp \<ge> g_last
            then fold_err (\<lambda>izz T.
                   bind_err (mass_factors D old iz ia izz) (\<lambda>(m, w). add_at T izz (- 1) (m * w)))
                   [0..<dis_Nz D] T
            else
              let j = int (length (filter (\<lambda>x. x \<le> a_intp) g)) in
              bind_err (py_get g (j - 1)) (\<lambda>g_left.
              bind_err (py_get g j) (\<lambda>g_right.
                if g_right - g_left = 0 then Inl NotFinite
                else
                  let p0 = (a_intp - g_left) / (g_right - g_left) in
                  fold_err (\<lambda>izz T.
                    bind_err (mass_factors D old iz ia izz) (\<lambda>(m, w).
                    bind_err (add_at T izz j (p0 * m * w)) (\<lambda>T.
                    bind_err (mass_factors D old iz ia izz) (\<lambda>(m, w).
                      add_at T izz (j - 1) ((1 - p0) * m * w)))))
                    [0..<dis_Nz D] T)))))))"

text \<open>One sweep: the density of period \<open>t + 1\<close> before it is normalised.\<close>

definition dis_sweep :: "params_discrete \<Rightarrow> matrix \<Rightarrow> matrix \<Rightarrow> error + matrix" where
  "dis_sweep D pol_sav old =
     fold_err (\<lambda>iz T.
        fold_err (\<lambda>(ia, a0) T. cell_update D pol_sav old iz ia a0 T)
          (enumerate 0 (dis_grid_a_fine D)) T)
       [0..<dis_Nz D]
       (replicate (dis_Nz D) (replicate (length (dis_grid_a_fine D)) 0))"

definition total :: "matrix \<Rightarrow> real" where
  "total T = sum_list (map sum_list T)"

text \<open>
  \<^verbatim>\<open>stationary_pdf/np.sum(np.sum(stationary_pdf,axis=0))\<close>; a division by zero gives
  values that are not finite reals.
\<close>

definition normalise :: "matrix \<Rightarrow> error + matrix" where
  "normalise T = (if total T = 0 then Inl NotFinite else Inr (map (map (\<lambda>v. v / total T)) T))"

text \<open>
  The initial guess
  \<^verbatim>\<open>(np.ones((Na_fine, Nz))/Na_fine * np.transpose(pi_stat)).T\<close>; the product
  broadcasts \<^verbatim>\<open>pi_stat\<close> along the last axis and raises when the shapes do not fit.
\<close>

definition dis_initial :: "params_discrete \<Rightarrow> error + matrix" where
  "dis_initial D =
     (let Na_fine = length (dis_grid_a_fine D) in
      if length (dis_pi_stat D) = dis_Nz D \<or> dis_Nz D = 1
      then Inr (map (\<lambda>s. replicate Na_fine (1 / real Na_fine * s)) (dis_pi_stat D))
      else if length (dis_pi_stat D) = 1
      then Inr (replicate (dis_Nz D) (replicate Na_fine (1 / real Na_fine * dis_pi_stat D ! 0)))
      else Inl ValueError)"

fun dis_loop ::
  "params_discrete \<Rightarrow> matrix \<Rightarrow> nat list \<Rightarrow> matrix \<Rightarrow> (matrix \<times> nat) option \<Rightarrow>
   error + matrix \<times> nat" where
  "dis_loop D pol_sav [] old prev =
     (case prev of None \<Rightarrow> Inl NameError | Some res \<Rightarrow> Inr res)"
| "dis_loop D pol_sav (i # is) old prev =
     bind_err (dis_sweep D pol_sav old) (\<lambda>T.
     bind_err (normalise T) (\<lambda>pdf.
     bind_err (sup_dist pdf old) (\<lambda>dist.
       if dist < dis_tol D then Inr (pdf, i)
       else dis_loop D pol_sav is pdf (Some (pdf, i)))))"

definition discrete_stationary_density ::
  "matrix \<Rightarrow> params_discrete \<Rightarrow> error + matrix \<times> nat" where
  "discrete_stationary_density pol_sav D =
     bind_err (dis_initial D) (\<lambda>old. dis_loop D pol_sav [0..<dis_maxit D] old None)"

text \<open>A small economy for the discrete density, with the sizes of \<open>eig_example\<close>.\<close>

definition dis_example :: params_discrete where
  "dis_example =
     \<lparr>dis_grid_a = [0, 2], dis_grid_a_fine = [0, 1, 2], dis_Nz = 2,
      dis_pi = [[3 / 4, 1 / 4], [1 / 4, 3 / 4]], dis_pi_stat = [1 / 2, 1 / 2],
      dis_maxit = 1, dis_tol = 1 / 10 ^ 6\<rparr>"

text \<open>
  Predicates used to state the properties of the discrete density: a table with \<open>n\<close> rows
  of length \<open>m\<close>, a table without negative entries, and the inputs the engine is run on
  (a strictly increasing fine grid, a policy table with one row per income state and one
  value per coarse grid point, a transition matrix with non-negative entries and rows
  summing to one).
\<close>

definition shaped :: "nat \<Rightarrow> nat \<Rightarrow> matrix \<Rightarrow> bool" where
  "shaped n m T = (length T = n \<and> (\<forall>row \<in> set T. length row = m))"

definition nonneg :: "matrix \<Rightarrow> bool" where
  "nonneg T = (\<forall>row \<in> set T. \<forall>v \<in> set row. 0 \<le> v)"

definition dis_ok :: "params_discrete \<Rightarrow> matrix \<Rightarrow> bool" where
  "dis_ok D pol_sav =
     (sorted_wrt (<) (dis_grid_a_fine D) \<and> dis_grid_a_fine D \<noteq> [] \<and> dis_grid_a D \<noteq> []
      \<and> length pol_sav = dis_Nz D
      \<and> list_all (\<lambda>row. length row = length (dis_grid_a D)) pol_sav
      \<and> length (dis_pi D) = dis_Nz D
      \<and> list_all (\<lambda>row. length row = dis_Nz D \<and> sum_list row = 1 \<and> list_all (\<lambda>v. 0 \<le> v) row)
           (dis_pi D))"

section \<open>Properties\<close>

subsection \<open>The equilibrium loop\<close>

lemma ss_body_it: "ss_body P ge i s = Inr s' \<Longrightarrow> it s' = Some i"
  by (auto simp: ss_body_def Let_def split: sum.splits if_splits)

lemma ss_loop_it:
  "ss_loop P ge is s = Inr s' \<Longrightarrow> it s' = it s \<or> (\<exists>i \<in> set is. it s' = Some i)"
proof (induction "is" arbitrary: s)
  case Nil
  then show ?case by simp
next
  case (Cons i "is")
  then show ?case
    by (fastforce split: sum.splits if_splits dest: ss_body_it)
qed

text \<open>
  Whatever \<^verbatim>\<open>diff_old\<close> was at the end of the previous pass, the body resets it to
  \<^verbatim>\<open>np.inf\<close> before comparing, so every update is made with \<^verbatim>\<open>dp_big\<close>.
\<close>

lemma ss_body_dp_big:
  "ss_body P ge i s = Inr s' \<Longrightarrow> \<not> converged s \<Longrightarrow> \<not> converged s' \<Longrightarrow>
   \<exists>diff. ge (r_guess s) = Inr diff \<and> r_guess s' = r_guess s - dp_big P * diff
      \<and> damps s' = dp_big P # damps s"
  by (auto simp: ss_body_def Let_def split: sum.splits if_splits)

text \<open>
  Claim C1 (the code departs from it). The claim: an update after a residual whose
  magnitude is strictly greater than that of the previous pass uses the small damping
  factor \<^verbatim>\<open>dp_small = 1/100\<close>. The run below has the residual \<open>1/100\<close> at the first
  guess \<open>2/100\<close> and the residual \<open>2/100\<close> at the second guess \<open>19/1000\<close>; neither
  passes the convergence test. The second update is made with \<^verbatim>\<open>dp_big = 1/10\<close>
  (the guess becomes \<open>17/1000\<close>, not \<open>188/10000\<close>), because \<^verbatim>\<open>diff_old\<close> is reset to
  infinity at the top of every pass.
\<close>

theorem solve_model_growing_residual_dp_big:
  "solve_model (setup_parameters\<lparr>maxit_ss := 2\<rparr>)
     (\<lambda>r. Inr (if r = 2 / 100 then 1 / 100 else 2 / 100)) =
   Inr \<lparr>r_ss = 17 / 1000, no_convergence_printed = False,
        final = \<lparr>r_guess = 17 / 1000, diff_old = Fin (2 / 100), it = Some 1,
                  converged = False, damps = [1 / 10, 1 / 10]\<rparr>\<rparr>"
  by (simp add: solve_model_def setup_parameters_def ss_body_def Let_def upt_rec)

lemma solve_model_constant_residual:
  "map_sum id (\<lambda>res. (r_ss res, it (final res), converged (final res)))
     (solve_model setup_parameters (\<lambda>r. Inr 1)) = Inr (- 998 / 100, Some 99, False)"
  by (simp add: solve_model_def setup_parameters_def ss_body_def Let_def upt_rec)

text \<open>
  Claim C2 (the code departs from it). The claim: when the loop runs out of its 100
  passes without convergence, the run goes on, a warning is printed and the last guess is
  kept as \<^verbatim>\<open>r_ss\<close>. The run does go on and the last guess is kept, but the warning is
  guarded by \<^verbatim>\<open>it > maxit_ss - 1\<close> and the loop variable never exceeds
  \<^verbatim>\<open>maxit_ss - 1\<close>: whenever \<^verbatim>\<open>solve_model\<close> reaches that line, nothing is printed.
\<close>

theorem solve_model_never_prints_no_convergence:
  "solve_model P ge = Inr res \<Longrightarrow> \<not> no_convergence_printed res"
proof -
  assume a: "solve_model P ge = Inr res"
  then obtain s i where s: "ss_loop P ge [0..<maxit_ss P]
       \<lparr>r_guess = 2 / 100, diff_old = PInf, it = None, converged = False, damps = []\<rparr> = Inr s"
    and i: "it s = Some i"
    and r: "no_convergence_printed res = (int i > int (maxit_ss P) - 1)"
    by (auto simp: solve_model_def Let_def split: sum.splits if_splits option.splits)
  from ss_loop_it[OF s] i have "i < maxit_ss P" by auto
  with r show ?thesis by simp
qed

text \<open>
  The run with the constant residual \<open>1\<close> uses all 100 passes without converging and
  without raising; the last guess is kept and no warning is printed.
\<close>

theorem solve_model_never_prints_no_convergence_witness:
  "\<exists>res. solve_model setup_parameters (\<lambda>r. Inr 1) = Inr res
      \<and> r_ss res = - 998 / 100 \<and> it (final res) = Some 99 \<and> \<not> converged (final res)
      \<and> \<not> no_convergence_printed res"
proof -
  obtain res where res: "solve_model setup_parameters (\<lambda>r. Inr 1) = Inr res"
    and vals: "r_ss res = - 998 / 100" "it (final res) = Some 99" "\<not> converged (final res)"
    using solve_model_constant_residual
    by (cases "solve_model setup_parameters (\<lambda>r. Inr 1)") auto
  from solve_model_never_prints_no_convergence[OF res] res vals show ?thesis by blast
qed

subsection \<open>The grid builder\<close>

lemma fold_update_length:
  "length (fold (\<lambda>i g. g[i := f i]) is g) = length g"
  by (induction "is" arbitrary: g) auto

lemma fold_update_nth:
  "k < length g \<Longrightarrow>
   fold (\<lambda>i g. g[i := f i]) [a..<b] g ! k = (if a \<le> k \<and> k < b then f k else g ! k)"
proof (induction b)
  case 0
  then show ?case by simp
next
  case (Suc b)
  show ?case
  proof (cases "a \<le> b")
    case True
    then have "fold (\<lambda>i g. g[i := f i]) [a..<Suc b] g
               = (fold (\<lambda>i g. g[i := f i]) [a..<b] g)[b := f b]"
      by simp
    then show ?thesis using Suc True
      by (cases "k = b") (auto simp: fold_update_length nth_list_update)
  next
    case False
    then show ?thesis by auto
  qed
qed

lemma make_grid_nth:
  assumes "2 \<le> n" "0 < c"
  shows "\<exists>g. make_grid lo hi n c = Inr g \<and> length g = n \<and> (\<forall>i<n. g ! i = grid_val lo hi n c i)"
proof -
  let ?f = "\<lambda>i. lo + (hi - lo) * (real i / real (n - 1)) powr c"
  let ?init = "(replicate n (0::real))[0 := lo, n - 1 := hi]"
  let ?g = "fold (\<lambda>i g. g[i := ?f i]) [1..<n - 1] ?init"
  have mg: "make_grid lo hi n c = Inr ?g"
    using assms by (simp add: make_grid_def Let_def)
  have len: "length ?g = n" by (simp add: fold_update_length)
  have nth: "?g ! i = grid_val lo hi n c i" if "i < n" for i
  proof -
    have "?g ! i = (if 1 \<le> i \<and> i < n - 1 then ?f i else ?init ! i)"
      by (rule fold_update_nth) (simp add: that)
    moreover have "?init ! 0 = ?f 0" using assms by (auto simp: nth_list_update)
    moreover have "?init ! (n - 1) = ?f (n - 1)" using assms by (auto simp: nth_list_update)
    ultimately show ?thesis using that
      by (cases "i = 0"; cases "i = n - 1") (auto simp: grid_val_def)
  qed
  show ?thesis using mg len nth by blast
qed

lemma grid_val_mono:
  assumes "lo < hi" "2 \<le> n" "0 < c" "i < j"
  shows "grid_val lo hi n c i < grid_val lo hi n c j"
proof -
  have "real i / real (n - 1) < real j / real (n - 1)"
    using assms by (simp add: divide_strict_right_mono)
  then have "(real i / real (n - 1)) powr c < (real j / real (n - 1)) powr c"
    using assms by (intro powr_less_mono2) auto
  then show ?thesis using assms by (simp add: grid_val_def)
qed

text \<open>
  The grids that \<^verbatim>\<open>setup_grid\<close> builds are strictly increasing and start at the
  lower bound; the properties of the density engines below are stated for such grids.
\<close>

lemma make_grid_well_formed:
  assumes "lo < hi" "2 \<le> n" "0 < c"
  shows "\<exists>g. make_grid lo hi n c = Inr g \<and> sorted_wrt (<) g \<and> length g = n \<and> hd g = lo"
proof -
  from make_grid_nth[OF assms(2,3)] obtain g where
    g: "make_grid lo hi n c = Inr g" "length g = n" "\<forall>i<n. g ! i = grid_val lo hi n c i"
    by blast
  have "sorted_wrt (<) g"
    using g grid_val_mono[OF assms] by (auto simp: sorted_wrt_iff_nth_less)
  moreover have "g \<noteq> []" using g(2) assms(2) by auto
  then have "hd g = g ! 0" by (simp add: hd_conv_nth)
  then have "hd g = lo" using g assms by (simp add: grid_val_def)
  ultimately show ?thesis using g by blast
qed

text \<open>
  Claim C8. For \<open>lo < hi\<close>, \<open>n \<ge> 2\<close> and a curvature \<open>c > 0\<close>, \<^verbatim>\<open>make_grid\<close> returns
  a list of length \<open>n\<close> that is strictly increasing, starts with \<open>lo\<close>, ends with \<open>hi\<close>,
  and whose interior entries are \<open>lo + (hi - lo) * (i / (n - 1)) ^ c\<close>.
\<close>

theorem make_grid_spec:
  assumes "lo < hi" "2 \<le> n" "0 < c"
  shows "\<exists>g. make_grid lo hi n c = Inr g \<and> length g = n \<and> sorted_wrt (<) g
           \<and> g ! 0 = lo \<and> g ! (n - 1) = hi
           \<and> (\<forall>i. 0 < i \<and> i < n - 1 \<longrightarrow>
                 g ! i = lo + (hi - lo) * (real i / real (n - 1)) powr c)"
proof -
  from make_grid_nth[OF assms(2,3)] obtain g where
    g: "make_grid lo hi n c = Inr g" "length g = n" "\<forall>i<n. g ! i = grid_val lo hi n c i"
    by blast
  have "sorted_wrt (<) g"
    using g grid_val_mono[OF assms] by (auto simp: sorted_wrt_iff_nth_less)
  moreover have "g ! 0 = lo" using g assms by (simp add: grid_val_def)
  moreover have "g ! (n - 1) = hi" using g assms by (simp add: grid_val_def)
  moreover have "\<forall>i. 0 < i \<and> i < n - 1 \<longrightarrow>
      g ! i = lo + (hi - lo) * (real i / real (n - 1)) powr c"
    using g by (auto simp: grid_val_def)
  ultimately show ?thesis using g by blast
qed

lemma make_grid_three: "make_grid 0 1 3 1 = Inr [0, 1 / 2, 1]"
  by (simp add: make_grid_def Let_def upt_rec eval_nat_numeral)

theorem make_grid_spec_witness:
  "(0::real) < 1 \<and> (2::nat) \<le> 3 \<and> make_grid 0 1 3 1 = Inr [0, 1 / 2, 1]
   \<and> sorted_wrt (<) [0, 1 / 2, 1 :: real] \<and> [0, 1 / 2, 1 :: real] ! (3 - 1) = 1"
  using make_grid_spec[of 0 1 3 1] make_grid_three by auto

subsection \<open>The Euler residual is defined everywhere\<close>



lemma interp_seg_total:
  "length xs = length ys \<Longrightarrow> xs \<noteq> [] \<Longrightarrow> hd xs \<le> x \<Longrightarrow> \<exists>v. interp_seg xs ys x = Inr v"
proof (induction xs ys x rule: interp_seg.induct)
  case (1 x0 x1 xs y0 y1 ys x)
  then show ?case by auto
qed auto

lemma interp_total:
  "xp \<noteq> [] \<Longrightarrow> length xp = length fp \<Longrightarrow> \<exists>v. interp xp fp x = Inr v"
  using interp_seg_total[of xp fp x] by (auto simp: interp_def)






subsection \<open>The corner solution of the household solver\<close>















subsection \<open>The grid size check of the Monte Carlo simulation\<close>

text \<open>
  The check compares the number of agent-period events counted in \<^verbatim>\<open>edge\<close> with the
  number of points of the asset grid; the number of agents plays no part in it.
\<close>

lemma grid_size_check_raises_iff:
  "grid_size_check edge n = Inl (Failure ''Increase grid size!'') \<longleftrightarrow> n \<noteq> 0 \<and> n < 100 * edge"
  by (auto simp: grid_size_check_def Let_def field_simps)

lemma grid_size_check_three_events:
  "grid_size_check 3 200 = Inl (Failure ''Increase grid size!'')"
  by (simp add: grid_size_check_def)

lemma sim_example_interp:
  "interp_seg (map real [0..<100]) (map real [0..<100]) 99 = Inr 99"
  by (simp add: upt_rec)

lemma sim_example_grid_ends:
  "hd (map real [0..<100]) = 0" "last (map real [0..<100]) = 99"
  by (simp_all add: hd_map last_map upt_conv_Cons[of 0 100])

lemma sim_example_agent:
  "agent_step sim_example_pol (2 / 100) 1 sim_example 0 0 99
   = Inr (1, 3 / 2, 10248 / 100, 99, 348 / 100, True)"
  using sim_example_interp sim_example_grid_ends
  by (simp add: agent_step_def sim_example_pol_def sim_example_def bind_err_def nth_err_def
      last_err_def interp_def Let_def del: upt_rec_numeral interp_seg.simps)

lemma sim_example_panel:
  "sim_panel (\<lambda>t. [0]) sim_example_pol (2 / 100) 1 sim_example =
   Inr \<lparr>p_sav = [99], p_z_idx = [1], p_z = [3 / 2], p_c = [348 / 100], p_m = [10248 / 100],
        p_k = [99], p_edge = 1, p_out = [True]\<rparr>"
  using sim_example_agent
  by (simp add: sim_panel_def sim_period_def bind_err_def nth_err_def mean_def Let_def
      sim_example_def del: upt_rec_numeral)

text \<open>
  Claim C6 (the code departs from it). The claim: the simulation raises if and only if
  more than 1% of the simulated agents reach the top edge of the asset grid. In the run
  below the panel has one agent, who starts at the top grid point \<open>99\<close> and stays there:
  \<^verbatim>\<open>check_out\<close> is set for the agent and \<^verbatim>\<open>edge\<close> is \<open>1\<close>, so all of the agents are
  at the top edge. The code divides \<^verbatim>\<open>edge\<close> by the number of grid points, \<open>100\<close>,
  finds \<open>1/100\<close> not greater than \<open>1/100\<close>, and returns normally.
\<close>

theorem simulate_MonteCarlo_all_at_edge_returns:
  "simulate_MonteCarlo (\<lambda>t. [0]) sim_example_pol (2 / 100) 1 sim_example =
     Inr ([99], [99], [3 / 2], [348 / 100], [10248 / 100])
   \<and> map_sum id (\<lambda>p. (p_edge p, p_out p, p_sav p))
        (sim_panel (\<lambda>t. [0]) sim_example_pol (2 / 100) 1 sim_example)
       = Inr (1, [True], [last (sim_grid_a sim_example)])
   \<and> simN sim_example = 1 \<and> length (sim_grid_a sim_example) = 100"
  using sim_example_panel sim_example_grid_ends
  by (simp add: simulate_MonteCarlo_def bind_err_def grid_size_check_def sim_example_def
      del: upt_rec_numeral)

subsection \<open>The stationary distribution: what \<^verbatim>\<open>stationary_mc\<close> checks\<close>

lemma sub_diag_ok:
  "k \<le> length p \<Longrightarrow> \<forall>i<length p. i < length (p ! i) \<Longrightarrow>
   sub_diag [k..<length p] p =
     Inr (map (\<lambda>i. if k \<le> i then (p ! i)[i := p ! i ! i - 1] else p ! i) [0..<length p])"
proof (induction "length p - k" arbitrary: k p)
  case 0
  then have "k = length p" by simp
  then show ?case by (auto intro!: nth_equalityI)
next
  case (Suc d)
  then have k: "k < length p" by simp
  let ?p' = "p[k := (p ! k)[k := p ! k ! k - 1]]"
  have a: "d = length ?p' - Suc k" using Suc by simp
  have b: "Suc k \<le> length ?p'" using k by simp
  have c: "\<forall>i<length ?p'. i < length (?p' ! i)"
    using Suc.prems(2) k by (auto simp: nth_list_update)
  have "sub_diag [k..<length p] p = sub_diag [Suc k..<length p] ?p'"
    using k Suc.prems(2) by (simp add: upt_conv_Cons)
  also have "\<dots> = Inr (map (\<lambda>i. if Suc k \<le> i then (?p' ! i)[i := ?p' ! i ! i - 1]
                                  else ?p' ! i) [0..<length p])"
    using Suc.hyps(1)[OF a b c] by simp
  also have "map (\<lambda>i. if Suc k \<le> i then (?p' ! i)[i := ?p' ! i ! i - 1] else ?p' ! i)
               [0..<length p]
     = map (\<lambda>i. if k \<le> i then (p ! i)[i := p ! i ! i - 1] else p ! i) [0..<length p]"
  proof (rule map_cong[OF refl])
    fix i assume "i \<in> set [0..<length p]"
    then have "i < length p" by simp
    then show "(if Suc k \<le> i then (?p' ! i)[i := ?p' ! i ! i - 1] else ?p' ! i)
        = (if k \<le> i then (p ! i)[i := p ! i ! i - 1] else p ! i)"
      using k by (cases "i = k") (auto simp: nth_list_update)
  qed
  finally show ?case .
qed

lemma sub_diag_fail:
  "c < length p \<Longrightarrow> k \<le> c \<Longrightarrow> \<forall>i<length p. length (p ! i) = c \<Longrightarrow>
   sub_diag [k..<length p] p = Inl IndexError"
proof (induction "c - k" arbitrary: k p)
  case 0
  then have "k = c" by simp
  then show ?case using 0 by (simp add: upt_conv_Cons)
next
  case (Suc d)
  then have k: "k < c" "k < length p" by simp_all
  let ?p' = "p[k := (p ! k)[k := p ! k ! k - 1]]"
  have "sub_diag [k..<length p] p = sub_diag [Suc k..<length p] ?p'"
    using k Suc.prems by (simp add: upt_conv_Cons)
  also have "\<dots> = sub_diag [Suc k..<length ?p'] ?p'" by simp
  also have "\<dots> = Inl IndexError"
  proof (rule Suc.hyps(1))
    show "d = c - Suc k" using Suc by simp
    show "c < length ?p'" using Suc by simp
    show "Suc k \<le> c" using k by simp
    show "\<forall>i<length ?p'. length (?p' ! i) = c"
      using Suc.prems by (auto simp: nth_list_update)
  qed
  finally show ?case .
qed

lemma stationary_mc_system:
  assumes "P \<noteq> []" and "\<forall>row \<in> set P. length P \<le> length row"
  shows "stationary_mc linv P =
     bind_err (linv (mc_system P)) (np_dot (replicate (length P - 1) 0 @ [1]))"
proof -
  have "sub_diag [0..<length P] P =
     Inr (map (\<lambda>i. if 0 \<le> i then (P ! i)[i := P ! i ! i - 1] else P ! i) [0..<length P])"
    using assms by (intro sub_diag_ok) (auto simp: less_le_trans)
  then show ?thesis using assms
    by (simp add: stationary_mc_def bind_err_def mc_system_def Let_def)
qed

text \<open>
  Claim C7, as stated, fails. The claim: for every matrix that is not square or whose
  rows do not all sum to one, \<^verbatim>\<open>stationary_mc\<close> fails. The rows of the matrix below
  sum to \<open>3/4\<close>; the derived system is invertible (its inverse is given, and
  \<^verbatim>\<open>np.linalg.inv\<close> finds it) and \<^verbatim>\<open>stationary_mc\<close> returns the vector
  \<open>[1/3, 2/3]\<close>.
\<close>

theorem stationary_mc_rows_not_summing_counterexample:
  "stationary_mc inv2 [[1 / 2, 1 / 4], [1 / 4, 1 / 2]] = Inr [1 / 3, 2 / 3]
   \<and> sum_list [1 / 2, 1 / 4 :: real] \<noteq> 1
   \<and> inv2 (mc_system [[1 / 2, 1 / 4], [1 / 4, 1 / 2]]) = Inr [[- 4 / 3, 4 / 3], [1 / 3, 2 / 3]]
   \<and> is_inverse (mc_system [[1 / 2, 1 / 4], [1 / 4, 1 / 2]]) [[- 4 / 3, 4 / 3], [1 / 3, 2 / 3]]"
  by (simp add: stationary_mc_def bind_err_def Let_def ones_column_def np_dot_def vec_mat_def
      ncols_def upt_rec mc_system_def is_inverse_def mat_mult_def eye_def)

text \<open>
  Claim C7, amended. \<^verbatim>\<open>stationary_mc\<close> validates neither the shape nor the row sums
  of its argument. For a non-empty rectangular matrix with \<open>c\<close> columns it fails with an
  index error when there are fewer columns than rows; otherwise it fails exactly when
  the inversion of the derived system fails (or returns a matrix of another size), and
  it returns the product of the last unit vector with that inverse in every other case,
  whatever the row sums are and also when there are more columns than rows.
\<close>

theorem stationary_mc_no_validation:
  assumes "P \<noteq> []" and "\<forall>row \<in> set P. length row = c"
  shows "stationary_mc linv P =
     (if c < length P then Inl IndexError
      else bind_err (linv (mc_system P)) (np_dot (replicate (length P - 1) 0 @ [1])))"
proof (cases "c < length P")
  case True
  have "sub_diag [0..<length P] P = Inl IndexError"
    using True assms by (intro sub_diag_fail[of c]) auto
  then show ?thesis using True assms by (simp add: stationary_mc_def bind_err_def)
next
  case False
  then show ?thesis using assms stationary_mc_system[of P linv] by auto
qed

text \<open>A matrix with two rows and three columns is accepted.\<close>

theorem stationary_mc_no_validation_witness:
  "[[3 / 4, 1 / 4, 0], [1 / 4, 3 / 4, 0 :: real]] \<noteq> []
   \<and> stationary_mc inv2 [[3 / 4, 1 / 4, 0], [1 / 4, 3 / 4, 0]] = Inr [1 / 2, 1 / 2]"
  using stationary_mc_no_validation[of "[[3 / 4, 1 / 4, 0], [1 / 4, 3 / 4, 0]]" 3 inv2]
  by (simp add: bind_err_def mc_system_def ones_column_def np_dot_def vec_mat_def ncols_def
      upt_rec)

subsection \<open>The stationary distribution is a probability vector\<close>

text \<open>
  The argument on the level of indices. \<open>P\<close> is the transition matrix of size
  \<open>m + 1\<close>, \<open>q\<close> the derived system and \<open>v\<close> a solution of \<open>v q = e\<close> for the last
  unit vector \<open>e\<close>.
\<close>



lemma fixed_of_system:
  fixes P q :: "nat \<Rightarrow> nat \<Rightarrow> real" and v :: "nat \<Rightarrow> real"
  assumes rows: "\<And>i. i < Suc m \<Longrightarrow> (\<Sum>j<Suc m. P i j) = 1"
    and qdef: "\<And>i j. i < Suc m \<Longrightarrow> j < Suc m \<Longrightarrow>
                 q i j = (if j = m then 1 else P i j - (if i = j then 1 else 0))"
    and sys: "\<And>j. j < Suc m \<Longrightarrow> (\<Sum>k<Suc m. v k * q k j) = (if j = m then 1 else 0)"
  shows "(\<Sum>k<Suc m. v k) = 1" and "\<And>j. j < Suc m \<Longrightarrow> (\<Sum>k<Suc m. v k * P k j) = v j"
proof -
  show sum1: "(\<Sum>k<Suc m. v k) = 1"
  proof -
    have "(\<Sum>k<Suc m. v k * q k m) = 1" using sys[of m] by simp
    moreover have "(\<Sum>k<Suc m. v k * q k m) = (\<Sum>k<Suc m. v k)"
      by (rule sum.cong) (simp_all add: qdef)
    ultimately show ?thesis by simp
  qed
  have lt: "(\<Sum>k<Suc m. v k * P k j) = v j" if "j < m" for j
  proof -
    have "(\<Sum>k<Suc m. v k * q k j) = (\<Sum>k<Suc m. v k * P k j - v k * (if k = j then 1 else 0))"
      using that by (intro sum.cong) (simp_all add: qdef algebra_simps)
    also have "\<dots> = (\<Sum>k<Suc m. v k * P k j) - (\<Sum>k<Suc m. v k * (if k = j then 1 else 0))"
      by (simp add: sum_subtractf)
    also have "(\<Sum>k<Suc m. v k * (if k = j then 1 else 0)) = v j"
      using that by (simp add: sum.delta if_distrib[of "\<lambda>t. _ * t"] cong: if_cong)
    finally show ?thesis using sys[of j] that by simp
  qed
  have last: "(\<Sum>k<Suc m. v k * P k m) = v m"
  proof -
    have pm: "P k m = 1 - (\<Sum>j<m. P k j)" if "k < Suc m" for k
      using rows[OF that] by simp
    have "(\<Sum>k<Suc m. v k * P k m) = (\<Sum>k<Suc m. v k - (\<Sum>j<m. v k * P k j))"
      by (intro sum.cong) (simp_all add: pm algebra_simps sum_distrib_left)
    also have "\<dots> = (\<Sum>k<Suc m. v k) - (\<Sum>k<Suc m. \<Sum>j<m. v k * P k j)"
      by (simp add: sum_subtractf)
    also have "(\<Sum>k<Suc m. \<Sum>j<m. v k * P k j) = (\<Sum>j<m. \<Sum>k<Suc m. v k * P k j)"
      by (rule sum.swap)
    also have "\<dots> = (\<Sum>j<m. v j)"
      by (rule sum.cong[OF refl]) (rule lt, simp)
    finally show ?thesis using sum1 by simp
  qed
  show "(\<Sum>k<Suc m. v k * P k j) = v j" if "j < Suc m" for j
    using that lt last by (cases "j = m") auto
qed

lemma system_of_fixed:
  fixes P q :: "nat \<Rightarrow> nat \<Rightarrow> real" and v :: "nat \<Rightarrow> real"
  assumes qdef: "\<And>i j. i < Suc m \<Longrightarrow> j < Suc m \<Longrightarrow>
                 q i j = (if j = m then 1 else P i j - (if i = j then 1 else 0))"
    and sum1: "(\<Sum>k<Suc m. v k) = 1"
    and fixed: "\<And>j. j < Suc m \<Longrightarrow> (\<Sum>k<Suc m. v k * P k j) = v j"
    and j: "j < Suc m"
  shows "(\<Sum>k<Suc m. v k * q k j) = (if j = m then 1 else 0)"
proof (cases "j = m")
  case True
  have "(\<Sum>k<Suc m. v k * q k m) = (\<Sum>k<Suc m. v k)"
    by (rule sum.cong) (simp_all add: qdef)
  then show ?thesis using True sum1 by simp
next
  case False
  have "(\<Sum>k<Suc m. v k * q k j) = (\<Sum>k<Suc m. v k * P k j - v k * (if k = j then 1 else 0))"
    using False j by (intro sum.cong) (simp_all add: qdef algebra_simps)
  also have "\<dots> = (\<Sum>k<Suc m. v k * P k j) - (\<Sum>k<Suc m. v k * (if k = j then 1 else 0))"
    by (simp add: sum_subtractf)
  also have "(\<Sum>k<Suc m. v k * (if k = j then 1 else 0)) = v j"
    using j by (simp add: sum.delta if_distrib[of "\<lambda>t. _ * t"] cong: if_cong)
  finally show ?thesis using fixed[OF j] False by simp
qed

lemma stationary_nonneg:
  fixes P q qi :: "nat \<Rightarrow> nat \<Rightarrow> real" and x :: "nat \<Rightarrow> real"
  assumes rows: "\<And>i. i < Suc m \<Longrightarrow> (\<Sum>j<Suc m. P i j) = 1"
    and nonneg: "\<And>i j. i < Suc m \<Longrightarrow> j < Suc m \<Longrightarrow> 0 \<le> P i j"
    and qdef: "\<And>i j. i < Suc m \<Longrightarrow> j < Suc m \<Longrightarrow>
                 q i j = (if j = m then 1 else P i j - (if i = j then 1 else 0))"
    and sys: "\<And>j. j < Suc m \<Longrightarrow> (\<Sum>k<Suc m. x k * q k j) = (if j = m then 1 else 0)"
    and right: "\<And>i j. i < Suc m \<Longrightarrow> j < Suc m \<Longrightarrow>
                 (\<Sum>k<Suc m. q i k * qi k j) = (if i = j then 1 else 0)"
    and xdef: "\<And>j. j < Suc m \<Longrightarrow> x j = qi m j"
    and j: "j < Suc m"
  shows "0 \<le> x j"
proof -
  have fx1: "(\<Sum>k<Suc m. x k) = 1"
    by (rule fixed_of_system(1)[of m P q x]) (use rows qdef sys in auto)
  have fx2: "(\<Sum>k<Suc m. x k * P k j) = x j" if "j < Suc m" for j
    by (rule fixed_of_system(2)[of m P q x]) (use rows qdef sys that in auto)
  define a where "a k = \<bar>x k\<bar>" for k
  define S where "S = (\<Sum>k<Suc m. a k)"
  have le: "a j \<le> (\<Sum>k<Suc m. a k * P k j)" if "j < Suc m" for j
  proof -
    have "a j = \<bar>\<Sum>k<Suc m. x k * P k j\<bar>" using fx2[OF that] by (simp add: a_def)
    also have "\<dots> \<le> (\<Sum>k<Suc m. \<bar>x k * P k j\<bar>)" by (rule sum_abs)
    also have "\<dots> = (\<Sum>k<Suc m. a k * P k j)"
      using that by (intro sum.cong) (simp_all add: a_def abs_mult nonneg)
    finally show ?thesis .
  qed
  have total: "(\<Sum>j<Suc m. \<Sum>k<Suc m. a k * P k j) = (\<Sum>j<Suc m. a j)"
  proof -
    have "(\<Sum>j<Suc m. \<Sum>k<Suc m. a k * P k j) = (\<Sum>k<Suc m. \<Sum>j<Suc m. a k * P k j)"
      by (rule sum.swap)
    also have "\<dots> = (\<Sum>k<Suc m. a k * (\<Sum>j<Suc m. P k j))"
      by (simp only: sum_distrib_left)
    also have "\<dots> = (\<Sum>k<Suc m. a k)"
      by (intro sum.cong) (simp_all only: rows lessThan_iff mult_1_right)
    finally show ?thesis .
  qed
  have afix: "(\<Sum>k<Suc m. a k * P k j) = a j" if "j < Suc m" for j
    using sum_mono_inv[of a "{..<Suc m}" "\<lambda>j. \<Sum>k<Suc m. a k * P k j" j] total le that
    by auto
  have "1 = \<bar>\<Sum>k<Suc m. x k\<bar>" using fx1 by simp
  also have "\<dots> \<le> S" unfolding S_def a_def by (rule sum_abs)
  finally have S: "1 \<le> S" .
  define y where "y k = a k / S" for k
  have ysum: "(\<Sum>k<Suc m. y k) = 1"
    using S by (simp add: y_def S_def sum_divide_distrib[symmetric])
  have yfix: "(\<Sum>k<Suc m. y k * P k j) = y j" if "j < Suc m" for j
  proof -
    have "(\<Sum>k<Suc m. y k * P k j) = (\<Sum>k<Suc m. a k * P k j) / S"
      unfolding y_def sum_divide_distrib by (rule sum.cong) simp_all
    then show ?thesis using afix[OF that] by (simp add: y_def)
  qed
  have ysys: "(\<Sum>k<Suc m. y k * q k j) = (if j = m then 1 else 0)" if "j < Suc m" for j
    by (rule system_of_fixed[of m q P y]) (use qdef ysum yfix that in auto)
  have "y j = (\<Sum>i<Suc m. y i * (if i = j then 1 else 0))"
    using j by (simp add: sum.delta if_distrib[of "\<lambda>t. _ * t"] cong: if_cong)
  also have "\<dots> = (\<Sum>i<Suc m. y i * (\<Sum>k<Suc m. q i k * qi k j))"
    using j by (intro sum.cong) (simp_all add: right del: sum.lessThan_Suc)
  also have "\<dots> = (\<Sum>i<Suc m. \<Sum>k<Suc m. (y i * q i k) * qi k j)"
    by (simp only: sum_distrib_left mult.assoc)
  also have "\<dots> = (\<Sum>k<Suc m. \<Sum>i<Suc m. (y i * q i k) * qi k j)"
    by (rule sum.swap)
  also have "\<dots> = (\<Sum>k<Suc m. (\<Sum>i<Suc m. y i * q i k) * qi k j)"
    by (simp only: sum_distrib_right)
  also have "\<dots> = (\<Sum>k<Suc m. (if k = m then 1 else 0) * qi k j)"
    by (intro sum.cong) (simp_all add: ysys del: sum.lessThan_Suc)
  also have "\<dots> = qi m j"
    by (simp add: sum.delta if_distrib[of "\<lambda>t. t * _"] cong: if_cong)
  finally have "y j = x j" using xdef[OF j] by simp
  moreover have "0 \<le> y j" using S by (simp add: y_def a_def)
  ultimately show ?thesis by simp
qed


lemma sum_list_map2_nth:
  "length xs = length ys \<Longrightarrow> sum_list (map2 f xs ys) = (\<Sum>i<length xs. f (xs ! i) (ys ! i))"
  by (simp add: sum_list_sum_nth atLeast0LessThan)

lemma sum_list_nth: "sum_list (xs :: real list) = (\<Sum>i<length xs. xs ! i)"
  by (simp add: sum_list_sum_nth atLeast0LessThan)

lemma length_vec_mat: "length (vec_mat x M) = ncols M"
  by (simp add: vec_mat_def)

lemma vec_mat_nth:
  "length x = length M \<Longrightarrow> j < ncols M \<Longrightarrow> vec_mat x M ! j = (\<Sum>i<length M. x ! i * M ! i ! j)"
  by (simp add: vec_mat_def sum_list_map2_nth)

lemma ncols_square: "M \<noteq> [] \<Longrightarrow> \<forall>row \<in> set M. length row = n \<Longrightarrow> ncols M = n"
  by (cases M) (auto simp: ncols_def)

lemma mc_system_shape:
  assumes "\<forall>row \<in> set P. length row = length P"
  shows "length (mc_system P) = length P"
    and "\<forall>row \<in> set (mc_system P). length row = length P"
  using assms by (auto simp: mc_system_def ones_column_def)

lemma mc_system_nth:
  assumes "\<forall>row \<in> set P. length row = length P" "i < length P" "j < length P"
  shows "mc_system P ! i ! j =
     (if j = length P - 1 then 1 else P ! i ! j - (if i = j then 1 else 0))"
  using assms by (auto simp: mc_system_def ones_column_def nth_append nth_list_update)

lemma mat_mult_nth:
  assumes "i < length A" "length (A ! i) = length B" "j < ncols B"
  shows "mat_mult A B ! i ! j = (\<Sum>k<length B. A ! i ! k * B ! k ! j)"
  using assms by (simp add: mat_mult_def vec_mat_nth)

lemma eye_nth: "i < n \<Longrightarrow> j < n \<Longrightarrow> eye n ! i ! j = (if i = j then 1 else 0)"
  by (simp add: eye_def)

text \<open>
  Claim C3. For every square transition matrix \<open>P\<close> with non-negative entries and rows
  summing to one whose derived system is invertible (\<^verbatim>\<open>np.linalg.inv\<close> returns its
  inverse), \<^verbatim>\<open>stationary_mc\<close> returns a vector \<open>x\<close> of the size of \<open>P\<close> with
  \<open>sum x = 1\<close>, every entry non-negative, and \<open>x = x P\<close>.
\<close>

theorem stationary_mc_stationary:
  assumes ne: "P \<noteq> []"
    and stoch: "\<forall>row \<in> set P. length row = length P \<and> sum_list row = 1 \<and> (\<forall>v \<in> set row. 0 \<le> v)"
    and linv: "linv (mc_system P) = Inr qi"
    and inv: "is_inverse (mc_system P) qi"
  shows "\<exists>x. stationary_mc linv P = Inr x \<and> length x = length P \<and> sum_list x = 1
            \<and> (\<forall>v \<in> set x. 0 \<le> v) \<and> vec_mat x P = x"
proof -
  define n where "n = length P"
  obtain m where m: "n = Suc m" using ne by (cases n) (auto simp: n_def)
  let ?q = "mc_system P"
  let ?e = "replicate (n - 1) (0::real) @ [1]"
  have sq: "\<forall>row \<in> set P. length row = length P" using stoch by blast
  have qlen: "length ?q = n" and qrows: "\<forall>row \<in> set ?q. length row = n"
    using mc_system_shape[OF sq] by (simp_all add: n_def)
  have qne: "?q \<noteq> []" using qlen m by auto
  have qilen: "length qi = n" and qirows: "\<forall>row \<in> set qi. length row = n"
    and qqi: "mat_mult ?q qi = eye n" and qiq: "mat_mult qi ?q = eye n"
    using inv qlen by (auto simp: is_inverse_def list_all_iff)
  have qine: "qi \<noteq> []" using qilen m by auto
  have ncq: "ncols ?q = n" using ncols_square[OF qne qrows] .
  have ncqi: "ncols qi = n" using ncols_square[OF qine qirows] .
  have ncP: "ncols P = n" using ncols_square[OF ne sq] by (simp add: n_def)
  define x where "x = vec_mat ?e qi"
  have res: "stationary_mc linv P = Inr x"
    using stationary_mc_system[of P linv] ne sq linv qilen
    by (simp add: bind_err_def np_dot_def x_def n_def)
  have xlen: "length x = n" by (simp add: x_def length_vec_mat ncqi)
  have xnth: "x ! j = qi ! m ! j" if "j < n" for j
  proof -
    have "x ! j = (\<Sum>i<n. ?e ! i * qi ! i ! j)"
      unfolding x_def using that qilen ncqi by (subst vec_mat_nth) auto
    also have "\<dots> = (\<Sum>i<n. (if i = m then 1 else 0) * qi ! i ! j)"
      using m by (intro sum.cong) (auto simp: nth_append)
    also have "\<dots> = qi ! m ! j"
      using m by (simp add: sum.delta if_distrib[of "\<lambda>t. t * _"] cong: if_cong)
    finally show ?thesis .
  qed
  have right: "(\<Sum>k<n. ?q ! i ! k * qi ! k ! j) = (if i = j then 1 else 0)" if "i < n" "j < n" for i j
  proof -
    have "mat_mult ?q qi ! i ! j = (\<Sum>k<length qi. ?q ! i ! k * qi ! k ! j)"
      using that qlen qrows qilen ncqi by (intro mat_mult_nth) auto
    then show ?thesis using that qqi qilen by (simp add: eye_nth)
  qed
  have left: "(\<Sum>k<n. qi ! i ! k * ?q ! k ! j) = (if i = j then 1 else 0)" if "i < n" "j < n" for i j
  proof -
    have "mat_mult qi ?q ! i ! j = (\<Sum>k<length ?q. qi ! i ! k * ?q ! k ! j)"
      using that qlen qirows qilen ncq by (intro mat_mult_nth) auto
    then show ?thesis using that qiq qlen by (simp add: eye_nth)
  qed
  have sys: "(\<Sum>k<Suc m. x ! k * ?q ! k ! j) = (if j = m then 1 else 0)" if "j < Suc m" for j
  proof -
    have "(\<Sum>k<n. x ! k * ?q ! k ! j) = (\<Sum>k<n. qi ! m ! k * ?q ! k ! j)"
      by (intro sum.cong) (simp_all add: xnth)
    then show ?thesis using left[of m j] that m by auto
  qed
  have rows: "(\<Sum>j<Suc m. P ! i ! j) = 1" if "i < Suc m" for i
  proof -
    have "P ! i \<in> set P" using that m by (simp add: n_def)
    then have "length (P ! i) = n" "sum_list (P ! i) = 1" using stoch by (auto simp: n_def)
    then show ?thesis using m by (simp add: sum_list_nth del: sum.lessThan_Suc)
  qed
  have nonneg: "0 \<le> P ! i ! j" if "i < Suc m" "j < Suc m" for i j
  proof -
    have "P ! i \<in> set P" using that m by (simp add: n_def)
    then have "length (P ! i) = n" "\<forall>v \<in> set (P ! i). 0 \<le> v" using stoch by (auto simp: n_def)
    then show ?thesis using that m by auto
  qed
  have qdef: "?q ! i ! j = (if j = m then 1 else P ! i ! j - (if i = j then 1 else 0))"
    if "i < Suc m" "j < Suc m" for i j
    using mc_system_nth[OF sq, of i j] that m by (auto simp: n_def)
  have sum1: "(\<Sum>k<Suc m. x ! k) = 1"
    by (rule fixed_of_system(1)[of m "\<lambda>i j. P ! i ! j" "\<lambda>i j. ?q ! i ! j" "\<lambda>k. x ! k"])
      (use rows qdef sys in auto)
  have fixed: "(\<Sum>k<Suc m. x ! k * P ! k ! j) = x ! j" if "j < Suc m" for j
    by (rule fixed_of_system(2)[of m "\<lambda>i j. P ! i ! j" "\<lambda>i j. ?q ! i ! j" "\<lambda>k. x ! k"])
      (use rows qdef sys that in auto)
  have pos: "0 \<le> x ! j" if "j < Suc m" for j
  proof (rule stationary_nonneg[of m "\<lambda>i j. P ! i ! j" "\<lambda>i j. ?q ! i ! j" "\<lambda>k. x ! k"
        "\<lambda>i j. qi ! i ! j" j])
    show "\<And>i j. i < Suc m \<Longrightarrow> j < Suc m \<Longrightarrow>
        (\<Sum>k<Suc m. ?q ! i ! k * qi ! k ! j) = (if i = j then 1 else 0)"
      using right m by simp
    show "\<And>j. j < Suc m \<Longrightarrow> x ! j = qi ! m ! j" using xnth m by simp
  qed (use rows nonneg qdef sys that in auto)
  have "sum_list x = 1" using sum1 xlen m by (simp add: sum_list_nth del: sum.lessThan_Suc)
  moreover have "\<forall>v \<in> set x. 0 \<le> v"
    using pos xlen m by (auto simp: in_set_conv_nth)
  moreover have "vec_mat x P = x"
  proof (rule nth_equalityI)
    show "length (vec_mat x P) = length x" by (simp add: length_vec_mat ncP xlen)
    fix j assume "j < length (vec_mat x P)"
    then have j: "j < n" by (simp add: length_vec_mat ncP)
    have "vec_mat x P ! j = (\<Sum>k<length P. x ! k * P ! k ! j)"
      using j xlen ncP by (intro vec_mat_nth) (auto simp: n_def)
    then show "vec_mat x P ! j = x ! j" using fixed[of j] j m by (simp add: n_def del: sum.lessThan_Suc)
  qed
  ultimately show ?thesis using res xlen by (auto simp: n_def)
qed

lemma pi_system_inverse:
  "inv2 (mc_system [[3 / 4, 1 / 4], [1 / 4, 3 / 4]]) = Inr [[- 2, 2], [1 / 2, 1 / 2]]"
  by (simp add: mc_system_def ones_column_def upt_rec)

lemma pi_system_is_inverse:
  "is_inverse (mc_system [[3 / 4, 1 / 4], [1 / 4, 3 / 4]]) [[- 2, 2], [1 / 2, 1 / 2]]"
  by (simp add: mc_system_def ones_column_def upt_rec is_inverse_def mat_mult_def vec_mat_def
      ncols_def eye_def)

lemma pi_stationary:
  "stationary_mc inv2 [[3 / 4, 1 / 4], [1 / 4, 3 / 4]] = Inr [1 / 2, 1 / 2]"
  by (simp add: stationary_mc_def bind_err_def Let_def ones_column_def np_dot_def vec_mat_def
      ncols_def upt_rec)

text \<open>The transition matrix of \<^verbatim>\<open>setup_parameters\<close>.\<close>

theorem stationary_mc_stationary_witness:
  "[[3 / 4, 1 / 4], [1 / 4, 3 / 4 :: real]] \<noteq> []
   \<and> inv2 (mc_system [[3 / 4, 1 / 4], [1 / 4, 3 / 4]]) = Inr [[- 2, 2], [1 / 2, 1 / 2]]
   \<and> is_inverse (mc_system [[3 / 4, 1 / 4], [1 / 4, 3 / 4]]) [[- 2, 2], [1 / 2, 1 / 2]]
   \<and> stationary_mc inv2 [[3 / 4, 1 / 4], [1 / 4, 3 / 4]] = Inr [1 / 2, 1 / 2]
   \<and> sum_list [1 / 2, 1 / 2 :: real] = 1
   \<and> vec_mat [1 / 2, 1 / 2] [[3 / 4, 1 / 4], [1 / 4, 3 / 4]] = [1 / 2, 1 / 2]"
proof -
  have "\<exists>x. stationary_mc inv2 [[3 / 4, 1 / 4], [1 / 4, 3 / 4]] = Inr x
      \<and> length x = length [[3 / 4, 1 / 4], [1 / 4, 3 / 4 :: real]] \<and> sum_list x = 1
      \<and> (\<forall>v \<in> set x. 0 \<le> v) \<and> vec_mat x [[3 / 4, 1 / 4], [1 / 4, 3 / 4]] = x"
    by (rule stationary_mc_stationary[of "[[3 / 4, 1 / 4], [1 / 4, 3 / 4]]" inv2
          "[[- 2, 2], [1 / 2, 1 / 2]]"])
      (simp_all add: pi_system_inverse pi_system_is_inverse)
  then show ?thesis
    using pi_system_inverse pi_system_is_inverse pi_stationary by auto
qed

subsection \<open>The rows of the transition matrix of the eigenvector method\<close>

text \<open>An interpolated value is at least every lower bound of the interpolated samples.\<close>

lemma interp_seg_lower:
  "length xs = length ys \<Longrightarrow> xs \<noteq> [] \<Longrightarrow> hd xs \<le> x \<Longrightarrow> \<forall>y \<in> set ys. c \<le> y \<Longrightarrow>
   \<exists>v. interp_seg xs ys x = Inr v \<and> c \<le> v"
proof (induction xs ys x rule: interp_seg.induct)
  case (1 x0 x1 xs y0 y1 ys x)
  show ?case
  proof (cases "x < x1")
    case True
    then have pos: "0 < x1 - x0" using 1 by simp
    define t where "t = (x - x0) / (x1 - x0)"
    have t: "0 \<le> t" "t \<le> 1" using True 1 pos by (simp_all add: t_def)
    have "(y1 - y0) / (x1 - x0) * (x - x0) + y0 = (1 - t) * y0 + t * y1"
      by (simp add: t_def algebra_simps add_divide_distrib diff_divide_distrib)
    moreover have "c \<le> (1 - t) * y0 + t * y1"
    proof -
      have "c = (1 - t) * c + t * c" by (simp add: algebra_simps)
      also have "\<dots> \<le> (1 - t) * y0 + t * y1"
        using t 1 by (intro add_mono mult_left_mono) auto
      finally show ?thesis .
    qed
    ultimately show ?thesis using True pos by simp
  next
    case False
    then show ?thesis using 1 by auto
  qed
qed auto

lemma interp_lower:
  assumes "xp \<noteq> []" "length xp = length fp" "\<forall>y \<in> set fp. c \<le> y"
  shows "\<exists>v. interp xp fp x = Inr v \<and> c \<le> v"
proof -
  have "fp \<noteq> []" using assms by auto
  then have "c \<le> hd fp" "c \<le> last fp" using assms by auto
  then show ?thesis
    using interp_seg_lower[of xp fp x c] assms by (auto simp: interp_def)
qed

lemma py_get_nat: "i < length xs \<Longrightarrow> py_get xs (int i) = Inr (xs ! i)"
  by (simp add: py_get_def py_index_def bind_err_def)

lemma py_get_last: "xs \<noteq> [] \<Longrightarrow> py_get xs (- 1) = Inr (last xs)"
  by (cases "length xs") (auto simp: py_get_def py_index_def bind_err_def last_conv_nth nat_diff_distrib)

lemma py_set_nat: "i < length xs \<Longrightarrow> py_set xs (int i) v = Inr (xs[i := v])"
  by (simp add: py_set_def py_index_def bind_err_def)

lemma locate_ok:
  assumes sorted: "sorted_wrt (<) g" and len: "2 \<le> length g" and lo: "hd g \<le> a"
  shows "\<exists>p k. locate g a = Inr (p, int k) \<and> 1 \<le> k \<and> k < length g"
proof -
  define cnt where "cnt = length (filter (\<lambda>x. x \<le> a) g)"
  have ne: "g \<noteq> []" using len by auto
  have g0: "py_get g 0 = Inr (g ! 0)" using py_get_nat[of 0 g] ne by simp
  have hd: "hd g = g ! 0" using ne by (simp add: hd_conv_nth)
  have "g ! 0 \<in> set g" using ne by simp
  then have "filter (\<lambda>x. x \<le> a) g \<noteq> []" using lo hd by (auto simp: filter_empty_conv)
  then have cnt1: "1 \<le> cnt" by (cases "filter (\<lambda>x. x \<le> a) g") (auto simp: cnt_def)
  have cntn: "cnt \<le> length g" by (simp add: cnt_def)
  show ?thesis
  proof (cases "a \<le> g ! 0")
    case True
    have "g ! 0 < g ! 1" using sorted len by (simp add: sorted_wrt_iff_nth_less)
    then have "\<not> g ! 1 \<le> a" using True by simp
    moreover have "g ! 1 \<in> set g" using len by simp
    ultimately have "cnt < length g" unfolding cnt_def by (rule length_filter_less[rotated])
    then show ?thesis using True g0 cnt1
      by (auto simp: locate_def Let_def bind_err_def cnt_def)
  next
    case f0: False
    have gl: "py_get g (- 1) = Inr (last g)" using py_get_last[OF ne] .
    show ?thesis
    proof (cases "a \<ge> last g")
      case True
      have "x \<le> a" if "x \<in> set g" for x
      proof -
        from that obtain i where i: "i < length g" "x = g ! i" by (auto simp: in_set_conv_nth)
        have "g ! i \<le> g ! (length g - 1)"
        proof (cases "i = length g - 1")
          case False
          then have "g ! i < g ! (length g - 1)"
            using i sorted by (simp add: sorted_wrt_iff_nth_less)
          then show ?thesis by simp
        qed simp
        then show ?thesis using True i ne by (simp add: last_conv_nth)
      qed
      then have all: "length (filter (\<lambda>x. x \<le> a) g) = length g" by simp
      have l0: "locate g a = Inr (1, int (length g) - 1)"
        using f0 True g0 gl all by (simp add: locate_def Let_def bind_err_def)
      have e: "int (length g) - 1 = int (length g - 1)" using len by linarith
      have l: "locate g a = Inr (1, int (length g - 1))" using l0 e by (simp only:)
      have b1: "1 \<le> length g - 1" using len by linarith
      have b2: "length g - 1 < length g" using len by linarith
      show ?thesis using l b1 b2 by blast
    next
      case False
      have "last g \<in> set g" using ne by simp
      then have lt: "cnt < length g" unfolding cnt_def using False
        by (intro length_filter_less[of "last g"]) auto
      have pg1: "py_get g (int cnt - 1) = Inr (g ! (cnt - 1))"
        using py_get_nat[of "cnt - 1" g] lt cnt1 by (simp add: of_nat_diff)
      have pg: "py_get g (int cnt) = Inr (g ! cnt)"
        using py_get_nat[of cnt g] lt by simp
      have "g ! (cnt - 1) < g ! cnt" using sorted lt cnt1 by (simp add: sorted_wrt_iff_nth_less)
      then have nz: "g ! cnt - g ! (cnt - 1) \<noteq> 0" by simp
      have "locate g a = Inr ((a - g ! (cnt - 1)) / (g ! cnt - g ! (cnt - 1)), int cnt)"
        using f0 False g0 gl nz
        by (simp add: locate_def Let_def bind_err_def cnt_def[symmetric] pg1 pg)
      then show ?thesis using cnt1 lt by blast
    qed
  qed
qed

lemma sum_list_update_real:
  fixes xs :: "real list"
  shows "i < length xs \<Longrightarrow> sum_list (xs[i := v]) = sum_list xs + v - xs ! i"
proof (induction xs arbitrary: i)
  case Nil
  then show ?case by simp
next
  case (Cons x xs)
  then show ?case by (cases i) auto
qed

lemma block_index_ne:
  fixes Na :: nat
  assumes "zz \<noteq> zz'" "a < Na" "b < Na"
  shows "zz * Na + a \<noteq> zz' * Na + b"
proof
  assume "zz * Na + a = zz' * Na + b"
  then have "(zz * Na + a) div Na = (zz' * Na + b) div Na" by simp
  then show False using assms by simp
qed

lemma block_index_less:
  fixes Na :: nat
  assumes "zz < Nz" "a < Na"
  shows "zz * Na + a < Nz * Na"
proof -
  have "zz * Na + a < zz * Na + Na" using assms by simp
  also have "\<dots> = Suc zz * Na" by simp
  also have "\<dots> \<le> Nz * Na" using assms by (intro mult_le_mono1) simp
  finally show ?thesis .
qed

lemma q_row_loop_sum:
  assumes "1 \<le> k" "k < eg_Na_fine E" "i_z < length (eg_pi E)"
    and "length row = Nz * eg_Na_fine E"
    and "distinct zs"
    and "\<forall>zz \<in> set zs. zz < Nz \<and> zz < length (eg_pi E ! i_z)"
    and "\<forall>zz \<in> set zs. row ! (zz * eg_Na_fine E + k) = 0 \<and> row ! (zz * eg_Na_fine E + (k - 1)) = 0"
  shows "\<exists>row'. q_row_loop E i_z p (int k) zs row = Inr row' \<and> length row' = length row
           \<and> sum_list row' = sum_list row + (\<Sum>zz\<leftarrow>zs. eg_pi E ! i_z ! zz)"
  using assms(4-)
proof (induction zs arbitrary: row)
  case Nil
  then show ?case by simp
next
  case (Cons zz zs)
  define Na where "Na = eg_Na_fine E"
  define w where "w = eg_pi E ! i_z ! zz"
  define i1 where "i1 = zz * Na + k"
  define i0 where "i0 = zz * Na + (k - 1)"
  have zz: "zz < Nz" "zz < length (eg_pi E ! i_z)" using Cons.prems by auto
  have k: "1 \<le> k" "k < Na" "k - 1 < Na" using assms(1,2) by (simp_all add: Na_def)
  have i1: "i1 < length row" unfolding i1_def using Cons.prems(1) block_index_less[OF zz(1) k(2)]
    by (simp add: Na_def)
  have i0: "i0 < length row" unfolding i0_def using Cons.prems(1) block_index_less[OF zz(1) k(3)]
    by (simp add: Na_def)
  have ne: "i0 \<noteq> i1" using k by (simp add: i0_def i1_def)
  define r1 where "r1 = row[i1 := p * w]"
  define r2 where "r2 = r1[i0 := (1 - p) * w]"
  have e1: "int zz * int (eg_Na_fine E) + int k = int i1" by (simp add: i1_def Na_def)
  have e0: "int i1 - 1 = int i0"
    using k by (simp add: i0_def i1_def Na_def)
  have step: "q_row_loop E i_z p (int k) (zz # zs) row = q_row_loop E i_z p (int k) zs r2"
    using zz assms(3) i1 i0
    by (simp add: Let_def bind_err_def nth_err_def e1 e0 py_set_nat r1_def r2_def w_def)
  have z1: "row ! i1 = 0" and z0: "row ! i0 = 0"
    using Cons.prems(4) by (simp_all add: i1_def i0_def Na_def)
  have len2: "length r2 = length row" by (simp add: r1_def r2_def)
  have sum2: "sum_list r2 = sum_list row + w"
  proof -
    have "sum_list r1 = sum_list row + p * w - row ! i1"
      unfolding r1_def by (rule sum_list_update_real) (rule i1)
    moreover have "sum_list r2 = sum_list r1 + (1 - p) * w - r1 ! i0"
      unfolding r2_def by (rule sum_list_update_real) (use i0 in \<open>simp add: r1_def\<close>)
    moreover have "r1 ! i0 = 0" using ne z0 by (simp add: r1_def)
    ultimately show ?thesis using z1 by (simp add: left_diff_distrib)
  qed
  have zeros: "\<forall>zz' \<in> set zs. r2 ! (zz' * eg_Na_fine E + k) = 0 \<and> r2 ! (zz' * eg_Na_fine E + (k - 1)) = 0"
  proof
    fix zz' assume a: "zz' \<in> set zs"
    then have d: "zz' \<noteq> zz" using Cons.prems(2) by auto
    have "zz' * Na + k \<noteq> i1" unfolding i1_def by (rule block_index_ne[OF d k(2) k(2)])
    moreover have "zz' * Na + k \<noteq> i0" unfolding i0_def by (rule block_index_ne[OF d k(2) k(3)])
    moreover have "zz' * Na + (k - 1) \<noteq> i1" unfolding i1_def by (rule block_index_ne[OF d k(3) k(2)])
    moreover have "zz' * Na + (k - 1) \<noteq> i0" unfolding i0_def by (rule block_index_ne[OF d k(3) k(3)])
    ultimately show "r2 ! (zz' * eg_Na_fine E + k) = 0 \<and> r2 ! (zz' * eg_Na_fine E + (k - 1)) = 0"
      using Cons.prems(4) a by (simp add: r2_def r1_def Na_def)
  qed
  have "\<exists>row'. q_row_loop E i_z p (int k) zs r2 = Inr row' \<and> length row' = length r2
           \<and> sum_list row' = sum_list r2 + (\<Sum>zz\<leftarrow>zs. eg_pi E ! i_z ! zz)"
  proof (rule Cons.IH)
    show "length r2 = Nz * eg_Na_fine E" using len2 Cons.prems(1) by simp
    show "distinct zs" using Cons.prems(2) by simp
    show "\<forall>zz \<in> set zs. zz < Nz \<and> zz < length (eg_pi E ! i_z)" using Cons.prems(3) by simp
    show "\<forall>zz' \<in> set zs. r2 ! (zz' * eg_Na_fine E + k) = 0
            \<and> r2 ! (zz' * eg_Na_fine E + (k - 1)) = 0"
      by (rule zeros)
  qed
  then obtain row' where r: "q_row_loop E i_z p (int k) zs r2 = Inr row'"
    "length row' = length r2"
    "sum_list row' = sum_list r2 + (\<Sum>zz\<leftarrow>zs. eg_pi E ! i_z ! zz)"
    by blast
  have "sum_list row' = sum_list row + (\<Sum>zz\<leftarrow>zz # zs. eg_pi E ! i_z ! zz)"
    using r(3) sum2 by (simp add: w_def)
  then show ?case using step r(1,2) len2 by (intro exI[of _ row']) simp
qed

lemma map_err_all:
  "(\<And>x. x \<in> set xs \<Longrightarrow> \<exists>y. f x = Inr y \<and> Q y) \<Longrightarrow>
   \<exists>ys. map_err f xs = Inr ys \<and> length ys = length xs \<and> (\<forall>y \<in> set ys. Q y)"
proof (induction xs)
  case Nil
  then show ?case by simp
next
  case (Cons x xs)
  then obtain y where y: "f x = Inr y" "Q y" by auto
  from Cons obtain ys where "map_err f xs = Inr ys" "length ys = length xs" "\<forall>y \<in> set ys. Q y"
    by auto
  then show ?case using y by auto
qed

lemma sum_nth_upt: "length xs = n \<Longrightarrow> (\<Sum>zz\<leftarrow>[0..<n]. xs ! zz) = sum_list (xs :: real list)"
  using map_nth[of xs] by (auto simp del: map_nth)

lemma q_row_ok:
  assumes fine: "sorted_wrt (<) (eg_grid_a_fine E)" "2 \<le> length (eg_grid_a_fine E)"
    and coarse: "eg_grid_a E \<noteq> []" "hd (eg_grid_a_fine E) \<le> hd (eg_grid_a E)"
    and pol: "length (eg_pol_sav E) = eg_Nz E"
      "\<forall>row \<in> set (eg_pol_sav E). length row = length (eg_grid_a E)
          \<and> (\<forall>s \<in> set row. hd (eg_grid_a E) \<le> s)"
    and pi: "length (eg_pi E) = eg_Nz E"
      "\<forall>row \<in> set (eg_pi E). length row = eg_Nz E \<and> sum_list row = 1"
    and iz: "i_z < eg_Nz E"
  shows "\<exists>row. q_row E i_z a0 = Inr row \<and> length row = eg_Nz E * eg_Na_fine E
           \<and> sum_list row = 1"
proof -
  let ?pol = "eg_pol_sav E ! i_z"
  have polrow: "?pol \<in> set (eg_pol_sav E)" using pol(1) iz by simp
  then have pl: "length (eg_grid_a E) = length ?pol" "\<forall>s \<in> set ?pol. hd (eg_grid_a E) \<le> s"
    using pol(2) by auto
  obtain a_intp where ai: "interp (eg_grid_a E) ?pol a0 = Inr a_intp" "hd (eg_grid_a E) \<le> a_intp"
    using interp_lower[OF coarse(1) pl] by blast
  have "hd (eg_grid_a_fine E) \<le> a_intp" using ai(2) coarse(2) by simp
  from locate_ok[OF fine this] obtain p k where
    loc: "locate (eg_grid_a_fine E) a_intp = Inr (p, int k)" "1 \<le> k" "k < length (eg_grid_a_fine E)"
    by blast
  have pirow: "eg_pi E ! i_z \<in> set (eg_pi E)" using pi(1) iz by simp
  then have pr: "length (eg_pi E ! i_z) = eg_Nz E" "sum_list (eg_pi E ! i_z) = 1"
    using pi(2) by auto
  let ?zero = "replicate (eg_Nz E * eg_Na_fine E) (0::real)"
  have "\<exists>row'. q_row_loop E i_z p (int k) [0..<eg_Nz E] ?zero = Inr row'
           \<and> length row' = length ?zero
           \<and> sum_list row' = sum_list ?zero + (\<Sum>zz\<leftarrow>[0..<eg_Nz E]. eg_pi E ! i_z ! zz)"
  proof (rule q_row_loop_sum[where Nz = "eg_Nz E"])
    show "1 \<le> k" by (rule loc(2))
    show "k < eg_Na_fine E" using loc(3) by (simp add: eg_Na_fine_def)
    show "i_z < length (eg_pi E)" using pi(1) iz by simp
    show "length ?zero = eg_Nz E * eg_Na_fine E" by simp
    show "distinct [0..<eg_Nz E]" by simp
    show "\<forall>zz \<in> set [0..<eg_Nz E]. zz < eg_Nz E \<and> zz < length (eg_pi E ! i_z)"
      using pr(1) by simp
    show "\<forall>zz \<in> set [0..<eg_Nz E]. ?zero ! (zz * eg_Na_fine E + k) = 0
            \<and> ?zero ! (zz * eg_Na_fine E + (k - 1)) = 0"
    proof
      fix zz assume "zz \<in> set [0..<eg_Nz E]"
      then have zz: "zz < eg_Nz E" by simp
      have k: "k < eg_Na_fine E" "k - 1 < eg_Na_fine E" using loc(3) by (simp_all add: eg_Na_fine_def)
      show "?zero ! (zz * eg_Na_fine E + k) = 0 \<and> ?zero ! (zz * eg_Na_fine E + (k - 1)) = 0"
        using block_index_less[OF zz k(1)] block_index_less[OF zz k(2)] by simp
    qed
  qed
  then obtain row where row: "q_row_loop E i_z p (int k) [0..<eg_Nz E] ?zero = Inr row"
    "length row = length ?zero"
    "sum_list row = sum_list ?zero + (\<Sum>zz\<leftarrow>[0..<eg_Nz E]. eg_pi E ! i_z ! zz)"
    by blast
  have "sum_list row = 1"
    using row(3) pr sum_nth_upt[of "eg_pi E ! i_z" "eg_Nz E"] by (simp add: sum_list_replicate)
  moreover have "q_row E i_z a0 = Inr row"
    using pol(1) iz ai(1) loc(1) row(1) by (simp add: q_row_def bind_err_def nth_err_def)
  ultimately show ?thesis using row(2) by auto
qed

text \<open>
  Claim C9. For a strictly increasing fine grid of at least two points whose first point
  is not above the first point of the coarse grid, a savings policy (one row per income
  state, one value per coarse grid point) whose values are all at least the first point
  of the coarse grid, and a transition matrix \<open>pi\<close> whose rows sum to one, the matrix
  \<open>Q\<close> is built without an error, has \<open>Nz * Na_fine\<close> rows and columns, every row of
  it sums exactly to one, and the assertion on the row sums does not fire.
\<close>

theorem transition_matrix_rows_sum_to_one:
  assumes fine: "sorted_wrt (<) (eg_grid_a_fine E)" "2 \<le> length (eg_grid_a_fine E)"
    and coarse: "eg_grid_a E \<noteq> []" "hd (eg_grid_a_fine E) \<le> hd (eg_grid_a E)"
    and pol: "length (eg_pol_sav E) = eg_Nz E"
      "\<forall>row \<in> set (eg_pol_sav E). length row = length (eg_grid_a E)
          \<and> (\<forall>s \<in> set row. hd (eg_grid_a E) \<le> s)"
    and pi: "length (eg_pi E) = eg_Nz E"
      "\<forall>row \<in> set (eg_pi E). length row = eg_Nz E \<and> sum_list row = 1"
  shows "\<exists>Q. transition_matrix E = Inr Q \<and> checked_transition_matrix E = Inr Q
           \<and> length Q = eg_Nz E * eg_Na_fine E
           \<and> (\<forall>row \<in> set Q. length row = eg_Nz E * eg_Na_fine E \<and> sum_list row = 1)"
proof -
  let ?good = "\<lambda>row. length row = eg_Nz E * eg_Na_fine E \<and> sum_list (row :: real list) = 1"
  let ?block = "\<lambda>rows. length rows = eg_Na_fine E \<and> (\<forall>row \<in> set rows. ?good row)"
  have block: "\<exists>rows. map_err (q_row E i_z) (eg_grid_a_fine E) = Inr rows \<and> ?block rows"
    if "i_z \<in> set [0..<eg_Nz E]" for i_z
  proof -
    have iz: "i_z < eg_Nz E" using that by simp
    have "\<exists>rows. map_err (q_row E i_z) (eg_grid_a_fine E) = Inr rows
        \<and> length rows = length (eg_grid_a_fine E) \<and> (\<forall>row \<in> set rows. ?good row)"
      by (rule map_err_all) (rule q_row_ok[OF fine coarse pol pi iz])
    then show ?thesis by (simp add: eg_Na_fine_def)
  qed
  have "\<exists>blocks. map_err (\<lambda>i_z. map_err (q_row E i_z) (eg_grid_a_fine E)) [0..<eg_Nz E] = Inr blocks
      \<and> length blocks = length [0..<eg_Nz E] \<and> (\<forall>rows \<in> set blocks. ?block rows)"
    by (rule map_err_all) (rule block)
  then obtain blocks where b:
    "map_err (\<lambda>i_z. map_err (q_row E i_z) (eg_grid_a_fine E)) [0..<eg_Nz E] = Inr blocks"
    "length blocks = eg_Nz E" "\<forall>rows \<in> set blocks. ?block rows"
    by auto
  let ?Q = "concat blocks"
  have tm: "transition_matrix E = Inr ?Q" using b(1) by (simp add: transition_matrix_def bind_err_def)
  have "map length blocks = replicate (eg_Nz E) (eg_Na_fine E)"
    using b(2,3) by (intro replicate_eqI) auto
  then have len: "length ?Q = eg_Nz E * eg_Na_fine E"
    by (simp add: length_concat sum_list_replicate)
  have rows: "\<forall>row \<in> set ?Q. ?good row" using b(3) by auto
  then have "assert_rows ?Q = Inr ()" by (simp add: assert_rows_def list_all_iff)
  then have "checked_transition_matrix E = Inr ?Q"
    using tm by (simp add: checked_transition_matrix_def bind_err_def)
  then show ?thesis using tm len rows by blast
qed

lemma eig_example_matrix:
  "transition_matrix eig_example =
     Inr [[3 / 4, 0, 0, 1 / 4, 0, 0], [3 / 8, 3 / 8, 0, 1 / 8, 1 / 8, 0],
          [0, 3 / 4, 0, 0, 1 / 4, 0], [1 / 8, 1 / 8, 0, 3 / 8, 3 / 8, 0],
          [0, 3 / 16, 1 / 16, 0, 9 / 16, 3 / 16], [0, 0, 1 / 4, 0, 0, 3 / 4]]"
  by (simp add: transition_matrix_def eig_example_def q_row_def bind_err_def nth_err_def
      interp_def locate_def py_get_def py_set_def py_index_def eg_Na_fine_def Let_def upt_rec
      eval_nat_numeral)

theorem transition_matrix_rows_sum_to_one_witness:
  "sorted_wrt (<) (eg_grid_a_fine eig_example) \<and> 2 \<le> length (eg_grid_a_fine eig_example)
   \<and> hd (eg_grid_a_fine eig_example) \<le> hd (eg_grid_a eig_example)
   \<and> length (eg_pol_sav eig_example) = eg_Nz eig_example
   \<and> checked_transition_matrix eig_example =
     Inr [[3 / 4, 0, 0, 1 / 4, 0, 0], [3 / 8, 3 / 8, 0, 1 / 8, 1 / 8, 0],
          [0, 3 / 4, 0, 0, 1 / 4, 0], [1 / 8, 1 / 8, 0, 3 / 8, 3 / 8, 0],
          [0, 3 / 16, 1 / 16, 0, 9 / 16, 3 / 16], [0, 0, 1 / 4, 0, 0, 3 / 4]]
   \<and> sum_list [0, 3 / 16, 1 / 16, 0, 9 / 16, 3 / 16 :: real] = 1"
proof -
  have "\<exists>Q. transition_matrix eig_example = Inr Q \<and> checked_transition_matrix eig_example = Inr Q
           \<and> length Q = eg_Nz eig_example * eg_Na_fine eig_example
           \<and> (\<forall>row \<in> set Q. length row = eg_Nz eig_example * eg_Na_fine eig_example
                 \<and> sum_list row = 1)"
    by (rule transition_matrix_rows_sum_to_one) (simp_all add: eig_example_def)
  then show ?thesis
    using eig_example_matrix by (auto simp: eig_example_def)
qed

subsection \<open>The discrete density is a probability table\<close>

text \<open>
  Every assignment of a sweep adds a non-negative mass to one entry of the new table, and
  the masses added for one cell of the old density add up to the mass of that cell,
  because the row of \<open>pi\<close> sums to one and the two interpolation weights sum to one.
\<close>

lemma fold_err_sum:
  assumes step: "\<And>x s. x \<in> set xs \<Longrightarrow> good s \<Longrightarrow>
                   \<exists>s'. f x s = Inr s' \<and> good s' \<and> tot s' = tot s + d x"
    and "good s"
  shows "\<exists>s'. fold_err f xs s = Inr s' \<and> good s' \<and> tot s' = tot s + (\<Sum>x\<leftarrow>xs. d x :: real)"
  using assms
proof (induction xs arbitrary: s)
  case Nil
  then show ?case by simp
next
  case (Cons x xs)
  from Cons.prems(1)[of x s] Cons.prems(2)
  obtain s1 where s1: "f x s = Inr s1" "good s1" "tot s1 = tot s + d x" by auto
  have "\<exists>s'. fold_err f xs s1 = Inr s' \<and> good s' \<and> tot s' = tot s1 + (\<Sum>x\<leftarrow>xs. d x)"
  proof (rule Cons.IH)
    show "\<And>y t. y \<in> set xs \<Longrightarrow> good t \<Longrightarrow> \<exists>s'. f y t = Inr s' \<and> good s' \<and> tot s' = tot t + d y"
      using Cons.prems(1) by simp
    show "good s1" by (rule s1(2))
  qed
  then obtain s2 where "fold_err f xs s1 = Inr s2" "good s2" "tot s2 = tot s1 + (\<Sum>x\<leftarrow>xs. d x)"
    by blast
  then show ?case using s1 by (intro exI[of _ s2]) (simp add: bind_err_def)
qed

lemma ball_update:
  "\<forall>x \<in> set xs. P x \<Longrightarrow> P y \<Longrightarrow> \<forall>x \<in> set (xs[i := y]). P x"
  using set_update_subset_insert[of xs i y] by blast

lemma total_update:
  assumes "i < length T"
  shows "total (T[i := r]) = total T + sum_list r - sum_list (T ! i)"
proof -
  have "map sum_list (T[i := r]) = (map sum_list T)[i := sum_list r]" by (simp add: map_update)
  then show ?thesis using assms by (simp add: total_def sum_list_update_real)
qed

lemma add_at_props:
  assumes sh: "shaped n m T" and nn: "nonneg T" and izz: "izz < n"
    and k: "py_index m c = Inr k" and v: "0 \<le> v"
  shows "\<exists>T'. add_at T izz c v = Inr T' \<and> (shaped n m T' \<and> nonneg T') \<and> total T' = total T + v"
proof -
  let ?row = "T ! izz"
  have len: "length T = n" and rowlen: "length ?row = m"
    using sh izz by (auto simp: shaped_def)
  have km: "k < m" using k by (auto simp: py_index_def split: if_splits)
  let ?row' = "?row[k := ?row ! k + v]"
  let ?T' = "T[izz := ?row']"
  have res: "add_at T izz c v = Inr ?T'"
    using izz len rowlen k by (simp add: add_at_def bind_err_def nth_err_def)
  have "shaped n m ?T'"
  proof -
    have "\<forall>row \<in> set T. length row = m" using sh by (simp add: shaped_def)
    then have "\<forall>row \<in> set ?T'. length row = m"
      by (rule ball_update) (simp add: rowlen)
    then show ?thesis using len by (simp add: shaped_def)
  qed
  moreover have "nonneg ?T'"
  proof -
    have rownn: "\<forall>x \<in> set ?row. 0 \<le> x" using nn izz len by (auto simp: nonneg_def)
    then have rk: "0 \<le> ?row ! k" using km rowlen by simp
    have r': "\<forall>x \<in> set ?row'. 0 \<le> x"
    proof (rule ball_update)
      show "\<forall>x \<in> set ?row. 0 \<le> x" by (rule rownn)
      show "0 \<le> ?row ! k + v" using rk v by simp
    qed
    have "\<forall>row \<in> set ?T'. \<forall>x \<in> set row. 0 \<le> x"
    proof (rule ball_update)
      show "\<forall>row \<in> set T. \<forall>x \<in> set row. 0 \<le> x" using nn by (simp add: nonneg_def)
      show "\<forall>x \<in> set ?row'. 0 \<le> x" by (rule r')
    qed
    then show ?thesis by (simp add: nonneg_def)
  qed
  moreover have "total ?T' = total T + v"
  proof -
    have "sum_list ?row' = sum_list ?row + (?row ! k + v) - ?row ! k"
      using km rowlen by (intro sum_list_update_real) simp
    then show ?thesis using total_update[of izz T ?row'] izz len by simp
  qed
  ultimately show ?thesis using res by blast
qed

lemma filter_le_takeWhile:
  fixes g :: "real list"
  shows "sorted_wrt (<) g \<Longrightarrow> filter (\<lambda>x. x \<le> a) g = takeWhile (\<lambda>x. x \<le> a) g"
proof (induction g)
  case Nil
  then show ?case by simp
next
  case (Cons x xs)
  show ?case
  proof (cases "x \<le> a")
    case True
    then show ?thesis using Cons by simp
  next
    case False
    then have "\<forall>y \<in> set xs. \<not> y \<le> a" using Cons.prems by auto
    then have "filter (\<lambda>x. x \<le> a) xs = []" by (simp add: filter_empty_conv)
    then show ?thesis using False by simp
  qed
qed

lemma count_le_bracket:
  fixes g :: "real list"
  assumes "sorted_wrt (<) g" and "cnt = length (filter (\<lambda>x. x \<le> a) g)"
    and "1 \<le> cnt" "cnt < length g"
  shows "g ! (cnt - 1) \<le> a" and "a < g ! cnt"
proof -
  let ?P = "\<lambda>x. x \<le> a"
  have c: "cnt = length (takeWhile ?P g)" using assms(1,2) by (simp add: filter_le_takeWhile)
  have "\<not> ?P (g ! cnt)" unfolding c using assms(4) c by (intro nth_length_takeWhile) simp
  then show "a < g ! cnt" by simp
  have lt: "cnt - 1 < length (takeWhile ?P g)" using assms(3) c by simp
  then have "takeWhile ?P g ! (cnt - 1) \<in> set (takeWhile ?P g)" by (rule nth_mem)
  then have "?P (takeWhile ?P g ! (cnt - 1))" by (rule set_takeWhileD[THEN conjunct2])
  then show "g ! (cnt - 1) \<le> a" using takeWhile_nth[OF lt] by simp
qed

lemma pi_row_facts:
  assumes "dis_ok D pol_sav" "iz < dis_Nz D"
  shows "iz < length (dis_pi D)" "length (dis_pi D ! iz) = dis_Nz D"
    "sum_list (dis_pi D ! iz) = 1" "\<And>izz. izz < dis_Nz D \<Longrightarrow> 0 \<le> dis_pi D ! iz ! izz"
proof -
  show a: "iz < length (dis_pi D)" using assms by (simp add: dis_ok_def)
  then have m: "dis_pi D ! iz \<in> set (dis_pi D)" by simp
  have all: "\<forall>row \<in> set (dis_pi D). length row = dis_Nz D \<and> sum_list row = 1
      \<and> (\<forall>v \<in> set row. 0 \<le> v)"
    using assms(1) by (simp add: dis_ok_def list_all_iff)
  show l: "length (dis_pi D ! iz) = dis_Nz D" using all m by blast
  show "sum_list (dis_pi D ! iz) = 1" using all m by blast
  show "0 \<le> dis_pi D ! iz ! izz" if "izz < dis_Nz D" for izz
    using all m l that nth_mem[of izz "dis_pi D ! iz"] by auto
qed

lemma old_facts:
  assumes "shaped n m old" "nonneg old" "iz < n" "ia < m"
  shows "iz < length old" "ia < length (old ! iz)" "0 \<le> old ! iz ! ia"
proof -
  show a: "iz < length old" using assms by (simp add: shaped_def)
  then have mem: "old ! iz \<in> set old" by simp
  show b: "ia < length (old ! iz)" using assms mem by (auto simp: shaped_def)
  show "0 \<le> old ! iz ! ia" using assms(2) mem b nth_mem[OF b] by (auto simp: nonneg_def)
qed

lemma mass_factors_ok:
  assumes "dis_ok D pol_sav" "shaped (dis_Nz D) m old" "nonneg old"
    and "iz < dis_Nz D" "ia < m" "izz < dis_Nz D"
  shows "mass_factors D old iz ia izz = Inr (old ! iz ! ia, dis_pi D ! iz ! izz)"
  using old_facts[OF assms(2,3,4,5)] pi_row_facts[OF assms(1,4)] assms(6)
  by (simp add: mass_factors_def bind_err_def nth_err_def)

lemma sum_const_mult_upt:
  fixes xs :: "real list"
  assumes "length xs = n"
  shows "(\<Sum>i\<leftarrow>[0..<n]. c * xs ! i) = c * sum_list xs"
proof -
  have "(\<Sum>i\<leftarrow>[0..<n]. c * xs ! i) = c * (\<Sum>i\<leftarrow>[0..<n]. xs ! i)"
    by (simp add: sum_list_const_mult)
  then show ?thesis using sum_nth_upt[OF assms] by simp
qed

lemma edge_loop_props:
  assumes ok: "dis_ok D pol_sav" and old: "shaped (dis_Nz D) m old" "nonneg old"
    and iz: "iz < dis_Nz D" and ia: "ia < m" and k: "py_index m c = Inr k"
    and T: "shaped (dis_Nz D) m T \<and> nonneg T"
  shows "\<exists>T'. fold_err (\<lambda>izz T. bind_err (mass_factors D old iz ia izz)
                                  (\<lambda>(mo, w). add_at T izz c (mo * w))) [0..<dis_Nz D] T = Inr T'
           \<and> (shaped (dis_Nz D) m T' \<and> nonneg T') \<and> total T' = total T + old ! iz ! ia"
proof -
  let ?f = "\<lambda>izz T. bind_err (mass_factors D old iz ia izz) (\<lambda>(mo, w). add_at T izz c (mo * w))"
  let ?d = "\<lambda>izz. old ! iz ! ia * dis_pi D ! iz ! izz"
  have "\<exists>T'. fold_err ?f [0..<dis_Nz D] T = Inr T'
      \<and> (shaped (dis_Nz D) m T' \<and> nonneg T') \<and> total T' = total T + (\<Sum>izz\<leftarrow>[0..<dis_Nz D]. ?d izz)"
  proof (rule fold_err_sum[where good = "\<lambda>T. shaped (dis_Nz D) m T \<and> nonneg T"])
    show "shaped (dis_Nz D) m T \<and> nonneg T" by (rule T)
    fix izz S assume izz: "izz \<in> set [0..<dis_Nz D]" and S: "shaped (dis_Nz D) m S \<and> nonneg S"
    then have izz': "izz < dis_Nz D" by simp
    have v: "0 \<le> ?d izz"
      using old_facts(3)[OF old iz ia] pi_row_facts(4)[OF ok iz izz'] by simp
    have "\<exists>T'. add_at S izz c (?d izz) = Inr T' \<and> (shaped (dis_Nz D) m T' \<and> nonneg T')
        \<and> total T' = total S + ?d izz"
      using S izz' k v by (intro add_at_props) auto
    then show "\<exists>s'. ?f izz S = Inr s' \<and> (shaped (dis_Nz D) m s' \<and> nonneg s')
        \<and> total s' = total S + ?d izz"
      by (simp add: mass_factors_ok[OF ok old iz ia izz'] bind_err_def)
  qed
  moreover have "(\<Sum>izz\<leftarrow>[0..<dis_Nz D]. ?d izz) = old ! iz ! ia"
    using sum_const_mult_upt[OF pi_row_facts(2)[OF ok iz], of "old ! iz ! ia"]
      pi_row_facts(3)[OF ok iz] by simp
  ultimately show ?thesis by simp
qed

lemma inner_loop_props:
  assumes ok: "dis_ok D pol_sav" and old: "shaped (dis_Nz D) m old" "nonneg old"
    and iz: "iz < dis_Nz D" and ia: "ia < m" and j: "1 \<le> j" "j < m"
    and p0: "0 \<le> p0" "p0 \<le> 1"
    and T: "shaped (dis_Nz D) m T \<and> nonneg T"
  shows "\<exists>T'. fold_err (\<lambda>izz T.
                    bind_err (mass_factors D old iz ia izz) (\<lambda>(mo, w).
                    bind_err (add_at T izz (int j) (p0 * mo * w)) (\<lambda>T.
                    bind_err (mass_factors D old iz ia izz) (\<lambda>(mo, w).
                      add_at T izz (int j - 1) ((1 - p0) * mo * w)))))
                  [0..<dis_Nz D] T = Inr T'
           \<and> (shaped (dis_Nz D) m T' \<and> nonneg T') \<and> total T' = total T + old ! iz ! ia"
proof -
  let ?f = "\<lambda>izz T.
                    bind_err (mass_factors D old iz ia izz) (\<lambda>(mo, w).
                    bind_err (add_at T izz (int j) (p0 * mo * w)) (\<lambda>T.
                    bind_err (mass_factors D old iz ia izz) (\<lambda>(mo, w).
                      add_at T izz (int j - 1) ((1 - p0) * mo * w))))"
  let ?d = "\<lambda>izz. old ! iz ! ia * dis_pi D ! iz ! izz"
  have k1: "py_index m (int j) = Inr j" using j by (simp add: py_index_def)
  have k0: "py_index m (int j - 1) = Inr (j - 1)"
    using j by (simp add: py_index_def nat_diff_distrib)
  have "\<exists>T'. fold_err ?f [0..<dis_Nz D] T = Inr T'
      \<and> (shaped (dis_Nz D) m T' \<and> nonneg T') \<and> total T' = total T + (\<Sum>izz\<leftarrow>[0..<dis_Nz D]. ?d izz)"
  proof (rule fold_err_sum[where good = "\<lambda>T. shaped (dis_Nz D) m T \<and> nonneg T"])
    show "shaped (dis_Nz D) m T \<and> nonneg T" by (rule T)
    fix izz S assume izz: "izz \<in> set [0..<dis_Nz D]" and S: "shaped (dis_Nz D) m S \<and> nonneg S"
    then have izz': "izz < dis_Nz D" by simp
    let ?mo = "old ! iz ! ia" and ?w = "dis_pi D ! iz ! izz"
    have mw: "0 \<le> ?mo" "0 \<le> ?w"
      using old_facts(3)[OF old iz ia] pi_row_facts(4)[OF ok iz izz'] by simp_all
    have v1: "0 \<le> p0 * ?mo * ?w" using mw p0 by simp
    have v0: "0 \<le> (1 - p0) * ?mo * ?w" using mw p0 by simp
    obtain S1 where S1: "add_at S izz (int j) (p0 * ?mo * ?w) = Inr S1"
      "shaped (dis_Nz D) m S1 \<and> nonneg S1" "total S1 = total S + p0 * ?mo * ?w"
      using add_at_props[of "dis_Nz D" m S izz "int j" j "p0 * ?mo * ?w"] S izz' k1 v1 by auto
    obtain S2 where S2: "add_at S1 izz (int j - 1) ((1 - p0) * ?mo * ?w) = Inr S2"
      "shaped (dis_Nz D) m S2 \<and> nonneg S2" "total S2 = total S1 + (1 - p0) * ?mo * ?w"
      using add_at_props[of "dis_Nz D" m S1 izz "int j - 1" "j - 1" "(1 - p0) * ?mo * ?w"]
        S1(2) izz' k0 v0 by auto
    have "total S2 = total S + ?d izz" using S1(3) S2(3) by (simp add: algebra_simps)
    then show "\<exists>s'. ?f izz S = Inr s' \<and> (shaped (dis_Nz D) m s' \<and> nonneg s')
        \<and> total s' = total S + ?d izz"
      using S1(1) S2(1,2)
      by (simp add: mass_factors_ok[OF ok old iz ia izz'] bind_err_def)
  qed
  moreover have "(\<Sum>izz\<leftarrow>[0..<dis_Nz D]. ?d izz) = old ! iz ! ia"
    using sum_const_mult_upt[OF pi_row_facts(2)[OF ok iz], of "old ! iz ! ia"]
      pi_row_facts(3)[OF ok iz] by simp
  ultimately show ?thesis by simp
qed

lemma cell_update_props:
  assumes ok: "dis_ok D pol_sav"
    and old: "shaped (dis_Nz D) (length (dis_grid_a_fine D)) old" "nonneg old"
    and iz: "iz < dis_Nz D" and ia: "ia < length (dis_grid_a_fine D)"
    and T: "shaped (dis_Nz D) (length (dis_grid_a_fine D)) T \<and> nonneg T"
  shows "\<exists>T'. cell_update D pol_sav old iz ia a0 T = Inr T'
           \<and> (shaped (dis_Nz D) (length (dis_grid_a_fine D)) T' \<and> nonneg T')
           \<and> total T' = total T + old ! iz ! ia"
proof -
  define g where "g = dis_grid_a_fine D"
  define m where "m = length g"
  have sorted: "sorted_wrt (<) g" and ne: "g \<noteq> []" and ga: "dis_grid_a D \<noteq> []"
    and pl: "length pol_sav = dis_Nz D"
    and prow: "\<forall>row \<in> set pol_sav. length row = length (dis_grid_a D)"
    using ok by (simp_all add: dis_ok_def g_def list_all_iff)
  have m1: "1 \<le> m" using ne by (cases g) (simp_all add: m_def)
  have "pol_sav ! iz \<in> set pol_sav" using pl iz by simp
  then have "length (dis_grid_a D) = length (pol_sav ! iz)" using prow by simp
  then obtain a_intp where ai: "interp (dis_grid_a D) (pol_sav ! iz) a0 = Inr a_intp"
    using interp_total[OF ga] by blast
  have g0: "py_get g 0 = Inr (g ! 0)" using py_get_nat[of 0 g] ne by simp
  have gl: "py_get g (- 1) = Inr (last g)" using py_get_last[OF ne] .
  note old' = old[folded g_def m_def]
  note T' = T[folded g_def m_def]
  have ia': "ia < m" using ia by (simp add: g_def m_def)
  let ?goal = "\<lambda>r. \<exists>T'. r = Inr T' \<and> (shaped (dis_Nz D) m T' \<and> nonneg T')
      \<and> total T' = total T + old ! iz ! ia"
  have start: "cell_update D pol_sav old iz ia a0 T =
    (if a_intp \<le> g ! 0
        then fold_err (\<lambda>izz T.
               bind_err (mass_factors D old iz ia izz) (\<lambda>(m, w). add_at T izz 0 (m * w)))
               [0..<dis_Nz D] T
        else
            if a_intp \<ge> last g
            then fold_err (\<lambda>izz T.
                   bind_err (mass_factors D old iz ia izz) (\<lambda>(m, w). add_at T izz (- 1) (m * w)))
                   [0..<dis_Nz D] T
            else
              let j = int (length (filter (\<lambda>x. x \<le> a_intp) g)) in
              bind_err (py_get g (j - 1)) (\<lambda>g_left.
              bind_err (py_get g j) (\<lambda>g_right.
                if g_right - g_left = 0 then Inl NotFinite
                else
                  let p0 = (a_intp - g_left) / (g_right - g_left) in
                  fold_err (\<lambda>izz T.
                    bind_err (mass_factors D old iz ia izz) (\<lambda>(m, w).
                    bind_err (add_at T izz j (p0 * m * w)) (\<lambda>T.
                    bind_err (mass_factors D old iz ia izz) (\<lambda>(m, w).
                      add_at T izz (j - 1) ((1 - p0) * m * w)))))
                    [0..<dis_Nz D] T)))"
    using pl iz ai g0 gl
    by (simp add: cell_update_def g_def[symmetric] bind_err_def nth_err_def Let_def)
  have "?goal (cell_update D pol_sav old iz ia a0 T)"
  proof (cases "a_intp \<le> g ! 0")
    case True
    have k: "py_index m 0 = Inr 0" using m1 by (simp add: py_index_def)
    show ?thesis unfolding start using True edge_loop_props[OF ok old' iz ia' k T'] by simp
  next
    case f0: False
    show ?thesis
    proof (cases "a_intp \<ge> last g")
      case True
      have k: "py_index m (- 1) = Inr (m - 1)"
        using m1 by (auto simp: py_index_def nat_diff_distrib)
      show ?thesis unfolding start using f0 True edge_loop_props[OF ok old' iz ia' k T'] by simp
    next
      case False
      define cnt where "cnt = length (filter (\<lambda>x. x \<le> a_intp) g)"
      have "g ! 0 \<in> set g" "g ! 0 \<le> a_intp" using ne f0 by simp_all
      then have "\<exists>x \<in> set g. x \<le> a_intp" by blast
      then have "filter (\<lambda>x. x \<le> a_intp) g \<noteq> []" by (simp add: filter_empty_conv)
      then have cnt1: "1 \<le> cnt" by (cases "filter (\<lambda>x. x \<le> a_intp) g") (auto simp: cnt_def)
      have "last g \<in> set g" using ne by simp
      then have lt: "cnt < m" unfolding cnt_def m_def using False
        by (intro length_filter_less[of "last g"]) auto
      have br: "g ! (cnt - 1) \<le> a_intp" "a_intp < g ! cnt"
        using count_le_bracket[OF sorted cnt_def cnt1] lt by (simp_all add: m_def)
      have pg1: "py_get g (int cnt - 1) = Inr (g ! (cnt - 1))"
        using py_get_nat[of "cnt - 1" g] lt cnt1 by (simp add: of_nat_diff m_def)
      have pg: "py_get g (int cnt) = Inr (g ! cnt)"
        using py_get_nat[of cnt g] lt by (simp add: m_def)
      let ?p0 = "(a_intp - g ! (cnt - 1)) / (g ! cnt - g ! (cnt - 1))"
      have den: "0 < g ! cnt - g ! (cnt - 1)" using br by simp
      have p0: "0 \<le> ?p0" "?p0 \<le> 1" using br den by simp_all
      have c1: "(a_intp \<le> g ! 0) = False" using f0 by simp
      have c2: "(a_intp \<ge> last g) = False" using False by simp
      have c3: "(g ! cnt - g ! (cnt - 1) = 0) = False" using den by simp
      have eq: "cell_update D pol_sav old iz ia a0 T =
         fold_err (\<lambda>izz T.
                    bind_err (mass_factors D old iz ia izz) (\<lambda>(mo, w).
                    bind_err (add_at T izz (int cnt) (?p0 * mo * w)) (\<lambda>T.
                    bind_err (mass_factors D old iz ia izz) (\<lambda>(mo, w).
                      add_at T izz (int cnt - 1) ((1 - ?p0) * mo * w)))))
                  [0..<dis_Nz D] T"
        by (simp only: start c1 c2 c3 if_False Let_def cnt_def[symmetric] pg1 pg bind_err_def
            sum.case)
      show ?thesis
        unfolding eq by (rule inner_loop_props[OF ok old' iz ia' cnt1 lt p0 T'])
    qed
  qed
  then show ?thesis by (simp add: g_def m_def)
qed

lemma sum_enumerate:
  "(\<Sum>(ia, a0)\<leftarrow>enumerate 0 g. f ia) = (\<Sum>ia\<leftarrow>[0..<length g]. (f ia :: real))"
proof -
  have "map (\<lambda>(ia, a0). f ia) (enumerate 0 g) = map (f \<circ> fst) (enumerate 0 g)"
    by (simp add: case_prod_unfold comp_def)
  also have "\<dots> = map f (map fst (enumerate 0 g))" by (simp only: map_map)
  also have "map fst (enumerate 0 g) = [0..<length g]" by (simp add: map_fst_enumerate)
  finally show ?thesis by simp
qed

lemma dis_sweep_props:
  assumes ok: "dis_ok D pol_sav"
    and old: "shaped (dis_Nz D) (length (dis_grid_a_fine D)) old" "nonneg old"
  shows "\<exists>T. dis_sweep D pol_sav old = Inr T
           \<and> (shaped (dis_Nz D) (length (dis_grid_a_fine D)) T \<and> nonneg T)
           \<and> total T = total old"
proof -
  let ?m = "length (dis_grid_a_fine D)"
  let ?good = "\<lambda>T. shaped (dis_Nz D) ?m T \<and> nonneg T"
  let ?zero = "replicate (dis_Nz D) (replicate ?m (0::real))"
  let ?inner = "\<lambda>iz. fold_err (\<lambda>(ia, a0) T. cell_update D pol_sav old iz ia a0 T)
          (enumerate 0 (dis_grid_a_fine D))"
  have zero: "?good ?zero" "total ?zero = 0"
    by (simp_all add: shaped_def nonneg_def total_def sum_list_replicate)
  have inner: "\<exists>T'. ?inner iz T = Inr T' \<and> ?good T' \<and> total T' = total T + sum_list (old ! iz)"
    if iz: "iz \<in> set [0..<dis_Nz D]" and T: "?good T" for iz T
  proof -
    have iz': "iz < dis_Nz D" using iz by simp
    have "\<exists>T'. ?inner iz T = Inr T' \<and> ?good T'
        \<and> total T' = total T + (\<Sum>x\<leftarrow>enumerate 0 (dis_grid_a_fine D). old ! iz ! fst x)"
    proof (rule fold_err_sum[where good = ?good])
      show "?good T" by (rule T)
      fix x S assume x: "x \<in> set (enumerate 0 (dis_grid_a_fine D))" and S: "?good S"
      obtain ia a0 where xe: "x = (ia, a0)" by (cases x)
      then have ia: "ia < ?m" using x by (auto simp: in_set_enumerate_eq)
      show "\<exists>s'. (case x of (ia, a0) \<Rightarrow> \<lambda>T. cell_update D pol_sav old iz ia a0 T) S = Inr s'
          \<and> ?good s' \<and> total s' = total S + old ! iz ! fst x"
        using cell_update_props[OF ok old iz' ia S, of a0] by (simp add: xe)
    qed
    moreover have "(\<Sum>x\<leftarrow>enumerate 0 (dis_grid_a_fine D). old ! iz ! fst x) = sum_list (old ! iz)"
    proof -
      have "length (old ! iz) = ?m" using old(1) iz' by (auto simp: shaped_def)
      moreover have "(\<Sum>x\<leftarrow>enumerate 0 (dis_grid_a_fine D). old ! iz ! fst x)
          = (\<Sum>ia\<leftarrow>[0..<?m]. old ! iz ! ia)"
        using sum_enumerate[of "\<lambda>ia. old ! iz ! ia" "dis_grid_a_fine D"]
        by (simp add: case_prod_unfold)
      ultimately show ?thesis using sum_nth_upt[of "old ! iz" ?m] by simp
    qed
    ultimately show ?thesis by simp
  qed
  have "\<exists>T. fold_err ?inner [0..<dis_Nz D] ?zero = Inr T \<and> ?good T
      \<and> total T = total ?zero + (\<Sum>iz\<leftarrow>[0..<dis_Nz D]. sum_list (old ! iz))"
    by (rule fold_err_sum[where good = ?good]) (use inner zero(1) in auto)
  moreover have "(\<Sum>iz\<leftarrow>[0..<dis_Nz D]. sum_list (old ! iz)) = total old"
  proof -
    have "length old = dis_Nz D" using old(1) by (simp add: shaped_def)
    then have "map (\<lambda>iz. sum_list (old ! iz)) [0..<dis_Nz D] = map sum_list old"
      by (intro nth_equalityI) simp_all
    then show ?thesis by (simp add: total_def)
  qed
  ultimately show ?thesis using zero(2) by (simp add: dis_sweep_def)
qed

lemma total_scale:
  "total (map (map (\<lambda>v. v / c)) T) = total T / c"
proof -
  have "sum_list (map (\<lambda>v. v / c) row) = sum_list row / c" for row :: "real list"
    by (induction row) (simp_all add: add_divide_distrib)
  then have "map sum_list (map (map (\<lambda>v. v / c)) T) = map (\<lambda>s. s / c) (map sum_list T)"
    by simp
  moreover have "sum_list (map (\<lambda>s. s / c) xs) = sum_list xs / c" for xs :: "real list"
    by (induction xs) (simp_all add: add_divide_distrib)
  ultimately show ?thesis by (simp add: total_def del: map_map)
qed

lemma normalise_props:
  assumes "shaped n m T" "nonneg T" "0 < total T"
  shows "\<exists>pdf. normalise T = Inr pdf \<and> shaped n m pdf \<and> nonneg pdf \<and> total pdf = 1"
proof -
  let ?pdf = "map (map (\<lambda>v. v / total T)) T"
  have "normalise T = Inr ?pdf" using assms(3) by (simp add: normalise_def)
  moreover have "shaped n m ?pdf" using assms(1) by (auto simp: shaped_def)
  moreover have "nonneg ?pdf" using assms(2,3) by (auto simp: nonneg_def)
  moreover have "total ?pdf = 1" using assms(3) by (simp add: total_scale)
  ultimately show ?thesis by blast
qed

lemma sup_dist_ok:
  assumes "shaped n m A" "shaped n m B" "0 < n" "0 < m"
  shows "\<exists>d. sup_dist A B = Inr d"
proof -
  obtain a A' where A: "A = a # A'" using assms(1,3) by (cases A) (auto simp: shaped_def)
  obtain b B' where B: "B = b # B'" using assms(2,3) by (cases B) (auto simp: shaped_def)
  have "length a = m" "length b = m" using assms(1,2) A B by (auto simp: shaped_def)
  then obtain x a' y b' where "a = x # a'" "b = y # b'"
    using assms(4) by (cases a; cases b) auto
  then show ?thesis using A B by (simp add: sup_dist_def)
qed

lemma dis_loop_props:
  assumes ok: "dis_ok D pol_sav" and nz: "0 < dis_Nz D"
    and old: "shaped (dis_Nz D) (length (dis_grid_a_fine D)) old" "nonneg old" "0 < total old"
    and prev: "is \<noteq> [] \<or> (\<exists>pdf0 i0. prev = Some (pdf0, i0)
                 \<and> shaped (dis_Nz D) (length (dis_grid_a_fine D)) pdf0
                 \<and> nonneg pdf0 \<and> total pdf0 = 1)"
  shows "\<exists>pdf i. dis_loop D pol_sav is old prev = Inr (pdf, i)
           \<and> shaped (dis_Nz D) (length (dis_grid_a_fine D)) pdf \<and> nonneg pdf \<and> total pdf = 1"
  using old prev
proof (induction "is" arbitrary: old prev)
  case Nil
  then show ?case by auto
next
  case (Cons i "is")
  let ?m = "length (dis_grid_a_fine D)"
  have m: "0 < ?m" using ok by (simp add: dis_ok_def)
  obtain T where T: "dis_sweep D pol_sav old = Inr T" "shaped (dis_Nz D) ?m T" "nonneg T"
    "total T = total old"
    using dis_sweep_props[OF ok Cons.prems(1,2)] by blast
  obtain pdf where pdf: "normalise T = Inr pdf" "shaped (dis_Nz D) ?m pdf" "nonneg pdf"
    "total pdf = 1"
    using normalise_props[OF T(2,3)] T(4) Cons.prems(3) by auto
  obtain d where d: "sup_dist pdf old = Inr d"
    using sup_dist_ok[OF pdf(2) Cons.prems(1) nz m] by blast
  show ?case
  proof (cases "d < dis_tol D")
    case True
    then show ?thesis using T(1) pdf d by (simp add: bind_err_def)
  next
    case False
    have "\<exists>pdf' i'. dis_loop D pol_sav is pdf (Some (pdf, i)) = Inr (pdf', i')
        \<and> shaped (dis_Nz D) ?m pdf' \<and> nonneg pdf' \<and> total pdf' = 1"
      using pdf by (intro Cons.IH) auto
    then show ?thesis using False T(1) pdf(1) d by (simp add: bind_err_def)
  qed
qed

lemma dis_initial_props:
  assumes "length (dis_pi_stat D) = dis_Nz D" "\<forall>s \<in> set (dis_pi_stat D). 0 \<le> s"
    and "dis_grid_a_fine D \<noteq> []"
  shows "\<exists>old. dis_initial D = Inr old
           \<and> shaped (dis_Nz D) (length (dis_grid_a_fine D)) old \<and> nonneg old
           \<and> total old = sum_list (dis_pi_stat D)"
proof -
  let ?m = "length (dis_grid_a_fine D)"
  let ?old = "map (\<lambda>s. replicate ?m (1 / real ?m * s)) (dis_pi_stat D)"
  have m: "0 < ?m" using assms(3) by simp
  have "dis_initial D = Inr ?old" using assms(1) by (simp add: dis_initial_def Let_def)
  moreover have "shaped (dis_Nz D) ?m ?old" using assms(1) by (auto simp: shaped_def)
  moreover have "nonneg ?old" using assms(2) by (auto simp: nonneg_def)
  moreover have "total ?old = sum_list (dis_pi_stat D)"
  proof -
    have "sum_list (replicate ?m (1 / real ?m * s)) = s" for s :: real
      using m by (simp add: sum_list_replicate)
    then have "map sum_list ?old = dis_pi_stat D" by (simp add: comp_def)
    then show ?thesis by (simp add: total_def)
  qed
  ultimately show ?thesis by blast
qed

text \<open>
  The discrete engine returns for every policy table, whether or not the iteration has
  converged within \<^verbatim>\<open>maxit\<close> passes, and what it returns sums to one and has no
  negative entry.
\<close>

lemma discrete_density_probability:
  assumes ok: "dis_ok D pol_sav"
    and stat: "length (dis_pi_stat D) = dis_Nz D" "sum_list (dis_pi_stat D) = 1"
      "\<forall>s \<in> set (dis_pi_stat D). 0 \<le> s"
    and maxit: "0 < dis_maxit D"
  shows "\<exists>pdf i. discrete_stationary_density pol_sav D = Inr (pdf, i)
           \<and> total pdf = 1 \<and> (\<forall>row \<in> set pdf. \<forall>v \<in> set row. 0 \<le> v)"
proof -
  have g: "dis_grid_a_fine D \<noteq> []" using ok by (simp add: dis_ok_def)
  obtain old where old: "dis_initial D = Inr old"
    "shaped (dis_Nz D) (length (dis_grid_a_fine D)) old" "nonneg old"
    "total old = sum_list (dis_pi_stat D)"
    using dis_initial_props[OF stat(1,3) g] by blast
  have nz: "0 < dis_Nz D" using stat(1,2) by (cases "dis_pi_stat D") auto
  have pos: "0 < total old" using old(4) stat(2) by simp
  have ne: "[0..<dis_maxit D] \<noteq> []" using maxit by simp
  obtain pdf i where "dis_loop D pol_sav [0..<dis_maxit D] old None = Inr (pdf, i)"
    "nonneg pdf" "total pdf = 1"
    using dis_loop_props[OF ok nz old(2,3) pos, of "[0..<dis_maxit D]" None] ne by blast
  then show ?thesis
    using old(1) by (auto simp: discrete_stationary_density_def bind_err_def nonneg_def)
qed

lemma dis_example_ok: "dis_ok dis_example [[0, 1], [1 / 2, 2]]"
  by (simp add: dis_ok_def dis_example_def)

lemma dis_example_run:
  "\<exists>pdf i. discrete_stationary_density [[0, 1], [1 / 2, 2]] dis_example = Inr (pdf, i)
      \<and> total pdf = 1 \<and> (\<forall>row \<in> set pdf. \<forall>v \<in> set row. 0 \<le> v)"
  by (rule discrete_density_probability[OF dis_example_ok]) (simp_all add: dis_example_def)

end
